theory Spec2Isabelle
  imports Main "HOL-Library.Char_ord" "HOL-Library.List_Lexorder" "HOL-Library.Option_ord"
    "HOL-Library.Multiset"
begin

section \<open>Numbers: SQLite REAL and JavaScript number\<close>

text \<open>
  \<^verbatim>\<open>balance: real("balance")\<close> and \<^verbatim>\<open>amount: real("amount")\<close> in
  \<^verbatim>\<open>src/lib/db/schema.ts\<close> are SQLite REAL columns, and \<^verbatim>\<open>z.number()\<close> /
  \<^verbatim>\<open>parseFloat\<close> in the router produce JavaScript numbers: both are IEEE-754
  binary64 values. Every finite binary64 value is an integer multiple of \<open>2^-1074\<close>, so
  a finite value is kept as that integer: \<open>Fin n\<close> stands for \<open>n * 2^-1074\<close>.
  NaN is not a value of the type: \<^verbatim>\<open>z.number()\<close> rejects it on input and SQLite
  turns it into NULL, which the NOT NULL columns refuse; an addition that would give NaN
  returns \<open>None\<close>. The two zeros are not distinguished.
\<close>

datatype f64 = Fin int | PosInf | NegInf

function bit_length :: "int \<Rightarrow> nat" where
  "bit_length a = (if a \<le> 0 then 0 else Suc (bit_length (a div 2)))"
  by pat_completeness auto
termination
  by (relation "measure nat") auto

declare bit_length.simps [simp del]

text \<open>
  \<open>round_f64 n d\<close> is the binary64 value nearest to \<open>(n / d) * 2^-1074\<close> (\<open>d > 0\<close>),
  ties to even: 53 significant bits are kept, values below \<open>2^-1021\<close> are spaced
  \<open>2^-1074\<close> apart, and a rounded magnitude of \<open>2^1024\<close> or more is an infinity.
\<close>

definition round_f64 :: "int \<Rightarrow> int \<Rightarrow> f64" where
  "round_f64 n d =
     (let a = \<bar>n\<bar> div d;
          rem = \<bar>n\<bar> mod d;
          k = bit_length a - 53;
          q = a div 2 ^ k;
          r = a mod 2 ^ k;
          twice = 2 * (r * d + rem);
          full = 2 ^ k * d;
          q' = (if twice > full \<or> (twice = full \<and> odd q) then q + 1 else q);
          v = q' * 2 ^ k
      in if v \<ge> 2 ^ 2098 then (if n < 0 then NegInf else PosInf) else Fin (sgn n * v))"

text \<open>A decimal literal or parsed decimal \<open>n / d\<close>, as JavaScript reads it.\<close>

definition f64_lit :: "int \<Rightarrow> int \<Rightarrow> f64" where
  "f64_lit n d = round_f64 (n * 2 ^ 1074) d"

text \<open>SQLite's \<^verbatim>\<open>+\<close> on REAL values; \<open>None\<close> is the NaN that SQLite stores as NULL.\<close>

fun f64_add :: "f64 \<Rightarrow> f64 \<Rightarrow> f64 option" where
  "f64_add (Fin a) (Fin b) = Some (round_f64 (a + b) 1)"
| "f64_add PosInf NegInf = None"
| "f64_add NegInf PosInf = None"
| "f64_add PosInf _ = Some PosInf"
| "f64_add _ PosInf = Some PosInf"
| "f64_add NegInf _ = Some NegInf"
| "f64_add _ NegInf = Some NegInf"

fun f64_neg :: "f64 \<Rightarrow> f64" where
  "f64_neg (Fin a) = Fin (- a)"
| "f64_neg PosInf = NegInf"
| "f64_neg NegInf = PosInf"

definition f64_sub :: "f64 \<Rightarrow> f64 \<Rightarrow> f64 option" where
  "f64_sub x y = f64_add x (f64_neg y)"

fun f64_le :: "f64 \<Rightarrow> f64 \<Rightarrow> bool" where
  "f64_le (Fin a) (Fin b) = (a \<le> b)"
| "f64_le NegInf _ = True"
| "f64_le _ PosInf = True"
| "f64_le _ _ = False"

text \<open>A value of the type that is a binary64 value: rounding leaves it as it is.\<close>

fun is_f64 :: "f64 \<Rightarrow> bool" where
  "is_f64 (Fin n) = (round_f64 n 1 = Fin n)"
| "is_f64 PosInf = True"
| "is_f64 NegInf = True"

text \<open>The value is exactly the fraction \<open>p / q\<close>.\<close>

fun f64_exact_ratio :: "f64 \<Rightarrow> int \<Rightarrow> int \<Rightarrow> bool" where
  "f64_exact_ratio (Fin n) p q = (n * q = p * 2 ^ 1074)"
| "f64_exact_ratio PosInf p q = False"
| "f64_exact_ratio NegInf p q = False"

text \<open>A list of amounts added one after the other to \<open>b\<close>, in list order, with the
  addition of the REAL column: every partial sum is rounded. \<open>f64_sum\<close> starts from
  \<open>0\<close>.\<close>

definition f64_sum_from :: "f64 \<Rightarrow> f64 list \<Rightarrow> f64 option" where
  "f64_sum_from b xs =
     fold (\<lambda>x acc. case acc of None \<Rightarrow> None | Some s \<Rightarrow> f64_add s x) xs (Some b)"

definition f64_sum :: "f64 list \<Rightarrow> f64 option" where
  "f64_sum xs = f64_sum_from (Fin 0) xs"

text \<open>The exact value of a finite number, in units of \<open>2^-1074\<close>, and the exact sum of a
  list of finite numbers: the sum of the values, with no rounding, whatever the order.\<close>

fun f64_units :: "f64 \<Rightarrow> int option" where
  "f64_units (Fin n) = Some n"
| "f64_units PosInf = None"
| "f64_units NegInf = None"

fun exact_sum :: "f64 list \<Rightarrow> int option" where
  "exact_sum [] = Some 0"
| "exact_sum (x # xs) =
     (case (f64_units x, exact_sum xs) of (Some n, Some s) \<Rightarrow> Some (n + s) | _ \<Rightarrow> None)"


section \<open>The schema (src/lib/db/schema.ts)\<close>

text \<open>
  One record per table row. \<^verbatim>\<open>status\<close>, \<^verbatim>\<open>created_at\<close>, \<^verbatim>\<open>description\<close> and
  \<^verbatim>\<open>processed_at\<close> are nullable TEXT columns (\<open>None\<close> is NULL); the other columns
  are NOT NULL. Row identifiers are the integer primary keys.
\<close>

record account =
  acc_id :: int
  acc_userId :: int
  acc_accountNumber :: string
  acc_accountType :: string
  acc_balance :: f64
  acc_status :: "string option"
  acc_createdAt :: "string option"

record transaction =
  tx_id :: int
  tx_accountId :: int
  tx_type :: string
  tx_amount :: f64
  tx_description :: "string option"
  tx_status :: string
  tx_createdAt :: "string option"
  tx_processedAt :: "string option"

text \<open>
  The database: both tables in row order (insertion order), each with the counter that
  \<^verbatim>\<open>primaryKey({ autoIncrement: true })\<close> keeps of the largest identifier ever used.
\<close>

record db =
  accounts :: "account list"
  accounts_seq :: int
  transactions :: "transaction list"
  transactions_seq :: int

definition empty_db :: db where
  "empty_db = \<lparr>accounts = [], accounts_seq = 0, transactions = [], transactions_seq = 0\<rparr>"

text \<open>The identifier an AUTOINCREMENT insert assigns: one more than every identifier
  used so far.\<close>

definition next_rowid :: "int \<Rightarrow> int list \<Rightarrow> int" where
  "next_rowid seq ids = fold max ids seq + 1"

section \<open>Errors and inputs of the router (src/server/routers/account.ts)\<close>

datatype trpc_code = CONFLICT | NOT_FOUND | BAD_REQUEST

datatype error =
    TRPCError trpc_code string
  | SqliteError string
  | TypeError string

text \<open>The three errors the handlers throw, under the names the specification gives them.\<close>

definition NotFound :: error where
  "NotFound = TRPCError NOT_FOUND ''Account not found''"

definition InactiveAccount :: error where
  "InactiveAccount = TRPCError BAD_REQUEST ''Account is not active''"

datatype accountTypeInput = Checking | Savings

fun accountType_text :: "accountTypeInput \<Rightarrow> string" where
  "accountType_text Checking = ''checking''"
| "accountType_text Savings = ''savings''"

definition Conflict :: "accountTypeInput \<Rightarrow> error" where
  "Conflict t = TRPCError CONFLICT (''You already have a '' @ accountType_text t @ '' account'')"

datatype fundingSourceType = Card | Bank

fun fundingSourceType_text :: "fundingSourceType \<Rightarrow> string" where
  "fundingSourceType_text Card = ''card''"
| "fundingSourceType_text Bank = ''bank''"

record fundingSource =
  fs_type :: fundingSourceType
  fs_accountNumber :: string
  fs_routingNumber :: "string option"

text \<open>What a handler reads from outside the database: SQLite's \<^verbatim>\<open>CURRENT_TIMESTAMP\<close>
  and JavaScript's \<^verbatim>\<open>new Date().toISOString()\<close> at the time of the call.\<close>

record env =
  env_current_timestamp :: string
  env_date_iso :: string

record fund_result =
  res_transaction :: transaction
  res_newBalance :: f64

section \<open>fundAccount\<close>

text \<open>\<^verbatim>\<open>db.select().from(accounts).where(and(eq(id, accountId), eq(userId, ctx.user.id))).get()\<close>:
  the first matching row, if any.\<close>

definition select_account :: "db \<Rightarrow> int \<Rightarrow> int \<Rightarrow> account option" where
  "select_account d accountId userId =
     find (\<lambda>a. acc_id a = accountId \<and> acc_userId a = userId) (accounts d)"

text \<open>\<^verbatim>\<open>UPDATE accounts SET balance = balance + amount WHERE id = accountId\<close>. A row
  whose new balance would be NaN violates NOT NULL, and the statement fails (\<open>None\<close>).\<close>

fun update_balance :: "account list \<Rightarrow> int \<Rightarrow> f64 \<Rightarrow> account list option" where
  "update_balance [] accountId amount = Some []"
| "update_balance (a # as) accountId amount =
     (if acc_id a = accountId
      then (case f64_add (acc_balance a) amount of
              None \<Rightarrow> None
            | Some b \<Rightarrow> map_option ((#) (a\<lparr>acc_balance := b\<rparr>)) (update_balance as accountId amount))
      else map_option ((#) a) (update_balance as accountId amount))"

text \<open>\<^verbatim>\<open>tx.insert(transactions).values({...}).returning().all()\<close>: the new row
  as stored, and the database with it.\<close>

definition insert_transaction ::
  "env \<Rightarrow> db \<Rightarrow> int \<Rightarrow> f64 \<Rightarrow> string \<Rightarrow> transaction \<times> db" where
  "insert_transaction e d accountId amount description =
     (let row = \<lparr>tx_id = next_rowid (transactions_seq d) (map tx_id (transactions d)),
                 tx_accountId = accountId,
                 tx_type = ''deposit'',
                 tx_amount = amount,
                 tx_description = Some description,
                 tx_status = ''completed'',
                 tx_createdAt = Some (env_current_timestamp e),
                 tx_processedAt = Some (env_date_iso e)\<rparr>
      in (row, d\<lparr>transactions := transactions d @ [row], transactions_seq := tx_id row\<rparr>))"

text \<open>The callback of \<^verbatim>\<open>db.transaction\<close>: insert the transaction row, update the
  balance in SQL, return the row and the balance of the first updated account. An
  exception inside the callback rolls the database back to \<open>d\<close>.\<close>

definition fund_transaction ::
  "env \<Rightarrow> db \<Rightarrow> int \<Rightarrow> f64 \<Rightarrow> fundingSource \<Rightarrow> (error + fund_result) \<times> db" where
  "fund_transaction e d accountId amount fundingSource =
     (let (tx, d1) = insert_transaction e d accountId amount
                       (''Funding from '' @ fundingSourceType_text (fs_type fundingSource))
      in case update_balance (accounts d1) accountId amount of
           None \<Rightarrow> (Inl (SqliteError ''NOT NULL constraint failed: accounts.balance''), d)
         | Some accounts' \<Rightarrow>
             (case filter (\<lambda>a. acc_id a = accountId) accounts' of
                [] \<Rightarrow> (Inl (TypeError ''Cannot read properties of undefined''), d)
              | updatedAccount # _ \<Rightarrow>
                  (Inr \<lparr>res_transaction = tx, res_newBalance = acc_balance updatedAccount\<rparr>,
                   d1\<lparr>accounts := accounts'\<rparr>)))"

text \<open>The mutation handler. \<^verbatim>\<open>parseFloat(input.amount.toString())\<close> gives back the
  number it is applied to (the decimal that \<^verbatim>\<open>toString\<close> prints parses to the same
  binary64 value), so \<open>amount\<close> is the input amount. The result pairs what the caller
  receives with the database afterwards.\<close>

definition fundAccount ::
  "env \<Rightarrow> db \<Rightarrow> int \<Rightarrow> int \<Rightarrow> f64 \<Rightarrow> fundingSource \<Rightarrow> (error + fund_result) \<times> db" where
  "fundAccount e d userId accountId amount fundingSource =
     (case select_account d accountId userId of
        None \<Rightarrow> (Inl (TRPCError NOT_FOUND ''Account not found''), d)
      | Some account \<Rightarrow>
          if acc_status account \<noteq> Some ''active''
          then (Inl (TRPCError BAD_REQUEST ''Account is not active''), d)
          else fund_transaction e d accountId amount fundingSource)"

section \<open>Concurrent calls of fundAccount\<close>

text \<open>
  The handler is an \<^verbatim>\<open>async\<close> function with one \<^verbatim>\<open>await\<close>, on the SELECT
  (\<^verbatim>\<open>const account = await db.select()...get()\<close>); what follows, the two checks and
  \<^verbatim>\<open>db.transaction\<close>, is synchronous ("better-sqlite3 transactions are synchronous").
  A call therefore runs in two steps, each of them atomic, and other calls can run
  between the two: the read step is \<open>select_account\<close>, and \<open>fund_write\<close> is the write
  step, which checks the account it was given by the read step and runs the transaction
  on the database as it is then.
\<close>

definition fund_write ::
  "env \<Rightarrow> db \<Rightarrow> account option \<Rightarrow> int \<Rightarrow> f64 \<Rightarrow> fundingSource \<Rightarrow> (error + fund_result) \<times> db" where
  "fund_write e d selected accountId amount fundingSource =
     (case selected of
        None \<Rightarrow> (Inl (TRPCError NOT_FOUND ''Account not found''), d)
      | Some account \<Rightarrow>
          if acc_status account \<noteq> Some ''active''
          then (Inl (TRPCError BAD_REQUEST ''Account is not active''), d)
          else fund_transaction e d accountId amount fundingSource)"

text \<open>A call with its arguments, and how far it has run.\<close>

record call =
  c_env :: env
  c_userId :: int
  c_accountId :: int
  c_amount :: f64
  c_fundingSource :: fundingSource

datatype call_state =
    Pending
  | Selected "account option"
  | Returned "error + fund_result"

definition all_pending :: "nat \<Rightarrow> call_state" where
  "all_pending i = Pending"

text \<open>One step of the calls \<open>calls\<close>: the scheduler lets call \<open>i\<close> run its next step on
  the shared database. A schedule is the list of the calls named in turn, and \<open>run\<close>
  runs it.\<close>

definition step ::
  "call list \<Rightarrow> nat \<Rightarrow> db \<times> (nat \<Rightarrow> call_state) \<Rightarrow> db \<times> (nat \<Rightarrow> call_state)" where
  "step calls i s =
     (case s of (d, st) \<Rightarrow>
        if i < length calls
        then (case st i of
                Pending \<Rightarrow>
                  (d, st(i := Selected (select_account d (c_accountId (calls ! i))
                                          (c_userId (calls ! i)))))
              | Selected selected \<Rightarrow>
                  (case fund_write (c_env (calls ! i)) d selected (c_accountId (calls ! i))
                          (c_amount (calls ! i)) (c_fundingSource (calls ! i)) of
                     (r, d') \<Rightarrow> (d', st(i := Returned r)))
              | Returned r \<Rightarrow> (d, st))
        else (d, st))"

definition run ::
  "call list \<Rightarrow> nat list \<Rightarrow> db \<times> (nat \<Rightarrow> call_state) \<Rightarrow> db \<times> (nat \<Rightarrow> call_state)" where
  "run calls schedule s = fold (step calls) schedule s"

text \<open>The calls in the order in which a schedule runs their write steps: the write step
  of a call is the second time the schedule names it. The schedule is read backwards.\<close>

fun write_steps_rev :: "nat \<Rightarrow> nat list \<Rightarrow> nat list" where
  "write_steps_rev n [] = []"
| "write_steps_rev n (i # earlier) =
     (if i < n \<and> count_list earlier i = 1
      then write_steps_rev n earlier @ [i]
      else write_steps_rev n earlier)"

definition write_order :: "nat \<Rightarrow> nat list \<Rightarrow> nat list" where
  "write_order n schedule = write_steps_rev n (rev schedule)"

text \<open>What holds after every prefix \<open>p\<close> of a schedule of calls that fund the account \<open>a\<close>
  of the database \<open>d\<close>: the calls that have run their write step have each appended one
  completed deposit, in the order of their write steps; the balance of \<open>a\<close> is the
  initial balance with these amounts added one after the other; and a call is pending,
  holds the row it selected, or has returned its transaction, according to the number of
  steps it was given.\<close>

definition funding_invariant ::
  "db \<Rightarrow> account \<Rightarrow> call list \<Rightarrow> nat list \<Rightarrow> db \<times> (nat \<Rightarrow> call_state) \<Rightarrow> bool" where
  "funding_invariant d a calls p s =
     (\<exists>txs bal.
        transactions (fst s) = transactions d @ txs \<and>
        map tx_amount txs = map (\<lambda>i. c_amount (calls ! i)) (write_order (length calls) p) \<and>
        (\<forall>t \<in> set txs.
           tx_status t = ''completed'' \<and> tx_type t = ''deposit'' \<and> tx_accountId t = acc_id a) \<and>
        f64_sum_from (acc_balance a) (map tx_amount txs) = Some bal \<and>
        f64_le (Fin 0) bal \<and>
        accounts (fst s) = map (\<lambda>c. if c = a then a\<lparr>acc_balance := bal\<rparr> else c) (accounts d) \<and>
        (\<forall>i < length calls.
           (count_list p i = 0 \<longrightarrow> snd s i = Pending) \<and>
           (count_list p i = 1 \<longrightarrow>
              (\<exists>sel. snd s i = Selected (Some sel) \<and> acc_status sel = Some ''active'')) \<and>
           (2 \<le> count_list p i \<longrightarrow>
              (\<exists>tx nb. snd s i = Returned (Inr \<lparr>res_transaction = tx, res_newBalance = nb\<rparr>) \<and>
                 tx \<in> set txs \<and> tx_amount tx = c_amount (calls ! i)))))"

section \<open>getTransactions\<close>

text \<open>
  \<^verbatim>\<open>.orderBy(desc(transactions.createdAt))\<close>: the handler names the column and the
  direction, and SQLite sorts. The engine's ORDER BY is a parameter \<open>orderBy\<close> of the
  model, to which the handler passes the column and the direction; \<open>sql_order_by\<close> is
  what SQL guarantees of ORDER BY with one sort key, whatever the column and the
  direction: the same rows, in the order asked for, and nothing about rows of equal key.
  TEXT values compare bytewise and NULL sorts below every text, which is the order of
  \<open>string option\<close>.
\<close>

datatype direction = Asc | Desc

fun in_order :: "direction \<Rightarrow> string option \<Rightarrow> string option \<Rightarrow> bool" where
  "in_order Asc k k' = (k \<le> k')"
| "in_order Desc k k' = (k' \<le> k)"

type_synonym order_by =
  "(transaction \<Rightarrow> string option) \<Rightarrow> direction \<Rightarrow> transaction list \<Rightarrow> transaction list"

definition sql_order_by :: "order_by \<Rightarrow> bool" where
  "sql_order_by orderBy =
     (\<forall>column dir rows.
        mset (orderBy column dir rows) = mset rows \<and>
        sorted_wrt (\<lambda>t t'. in_order dir (column t) (column t')) (orderBy column dir rows))"

definition getTransactions ::
  "order_by \<Rightarrow> db \<Rightarrow> int \<Rightarrow> int \<Rightarrow> error + (transaction \<times> string) list" where
  "getTransactions orderBy d userId accountId =
     (case select_account d accountId userId of
        None \<Rightarrow> Inl (TRPCError NOT_FOUND ''Account not found'')
      | Some account \<Rightarrow>
          Inr (map (\<lambda>t. (t, acc_accountType account))
                 (orderBy tx_createdAt Desc
                    (filter (\<lambda>t. tx_accountId t = accountId) (transactions d)))))"

text \<open>One ORDER BY that SQL allows: a stable sort, which leaves rows of equal key in row
  order.\<close>

definition stable_order_by :: order_by where
  "stable_order_by column dir rows =
     (case dir of Asc \<Rightarrow> sort_key column rows | Desc \<Rightarrow> rev (sort_key column (rev rows)))"

text \<open>Another: a sort that puts later rows first among rows of equal key.\<close>

definition reversing_order_by :: order_by where
  "reversing_order_by column dir rows =
     (case dir of Asc \<Rightarrow> sort_key column (rev rows) | Desc \<Rightarrow> rev (sort_key column rows))"

section \<open>createAccount\<close>

text \<open>\<^verbatim>\<open>Number.prototype.toString\<close> on a non-negative integer.\<close>

function string_of_nat :: "nat \<Rightarrow> string" where
  "string_of_nat n =
     (if n < 10 then [''0123456789'' ! n]
      else string_of_nat (n div 10) @ [''0123456789'' ! (n mod 10)])"
  by pat_completeness auto
termination
  by (relation "measure id") auto

declare string_of_nat.simps [simp del]

text \<open>\<^verbatim>\<open>generateAccountNumber\<close>, given the integer that
  \<^verbatim>\<open>randomInt(1000000000, 9999999999)\<close> returned.\<close>

definition generateAccountNumber :: "nat \<Rightarrow> string" where
  "generateAccountNumber r = string_of_nat r"

definition randomInt_range :: "nat \<Rightarrow> bool" where
  "randomInt_range r = (1000000000 \<le> r \<and> r < 9999999999)"

text \<open>
  The loop \<^verbatim>\<open>while (!isUnique) { ... }\<close>. \<open>rnd i\<close> is the result of the \<open>i\<close>-th call
  of \<^verbatim>\<open>randomInt\<close>; the loop's state is the number \<open>i\<close> of draws made so far. The
  result is \<open>None\<close> when the loop does not end.
\<close>

partial_function (option) unique_loop :: "account list \<Rightarrow> (nat \<Rightarrow> nat) \<Rightarrow> nat \<Rightarrow> string option" where
  "unique_loop accts rnd i =
     (case find (\<lambda>a. acc_accountNumber a = generateAccountNumber (rnd i)) accts of
        None \<Rightarrow> Some (generateAccountNumber (rnd i))
      | Some existing \<Rightarrow> unique_loop accts rnd (Suc i))"

text \<open>The test of the loop: some stored account already has the number generated from
  the draw \<open>r\<close>.\<close>

definition collides :: "account list \<Rightarrow> nat \<Rightarrow> bool" where
  "collides accts r = (\<exists>a \<in> set accts. acc_accountNumber a = generateAccountNumber r)"

text \<open>The insert of the new row, with the UNIQUE constraint of
  \<^verbatim>\<open>account_number\<close> that SQLite checks on it.\<close>

definition insert_account ::
  "string \<Rightarrow> db \<Rightarrow> int \<Rightarrow> string \<Rightarrow> string \<Rightarrow> (error + account) \<times> db" where
  "insert_account now d userId accountNumber accountType =
     (if \<exists>a \<in> set (accounts d). acc_accountNumber a = accountNumber
      then (Inl (SqliteError ''UNIQUE constraint failed: accounts.account_number''), d)
      else
        (let account = \<lparr>acc_id = next_rowid (accounts_seq d) (map acc_id (accounts d)),
                        acc_userId = userId,
                        acc_accountNumber = accountNumber,
                        acc_accountType = accountType,
                        acc_balance = Fin 0,
                        acc_status = Some ''active'',
                        acc_createdAt = Some now\<rparr>
         in (Inr account,
             d\<lparr>accounts := accounts d @ [account], accounts_seq := acc_id account\<rparr>)))"

text \<open>The mutation handler; \<open>None\<close> when the loop does not end.\<close>

definition createAccount ::
  "string \<Rightarrow> (nat \<Rightarrow> nat) \<Rightarrow> db \<Rightarrow> int \<Rightarrow> accountTypeInput \<Rightarrow> ((error + account) \<times> db) option" where
  "createAccount now rnd d userId accountType =
     (case find (\<lambda>a. acc_userId a = userId \<and> acc_accountType a = accountType_text accountType)
             (accounts d) of
        Some existingAccount \<Rightarrow>
          Some (Inl (TRPCError CONFLICT
                  (''You already have a '' @ accountType_text accountType @ '' account'')), d)
      | None \<Rightarrow>
          (case unique_loop (accounts d) rnd 0 of
             None \<Rightarrow> None
           | Some accountNumber \<Rightarrow>
               Some (insert_account now d userId accountNumber (accountType_text accountType))))"

section \<open>Properties of a database\<close>



text \<open>The amounts of the completed transactions of one kind on an account, in insertion
  order.\<close>

definition completed_amounts :: "db \<Rightarrow> int \<Rightarrow> string \<Rightarrow> f64 list" where
  "completed_amounts d accountId kind =
     map tx_amount
       (filter (\<lambda>t. tx_accountId t = accountId \<and> tx_type t = kind \<and> tx_status t = ''completed'')
          (transactions d))"

text \<open>Ledger consistency as the specification states it: the balance of every account is
  the sum of the amounts of its completed deposits minus the sum of the amounts of its
  completed withdrawals, the sums being exact.\<close>

definition ledger_balance_exact :: "db \<Rightarrow> int \<Rightarrow> int option" where
  "ledger_balance_exact d accountId =
     (case (exact_sum (completed_amounts d accountId ''deposit''),
            exact_sum (completed_amounts d accountId ''withdrawal'')) of
        (Some deposits, Some withdrawals) \<Rightarrow> Some (deposits - withdrawals)
      | _ \<Rightarrow> None)"

definition ledger_consistent_exact :: "db \<Rightarrow> bool" where
  "ledger_consistent_exact d =
     (\<forall>a \<in> set (accounts d). f64_units (acc_balance a) = ledger_balance_exact d (acc_id a))"

text \<open>Ledger consistency as the code keeps it: the same, with the amounts added one after
  the other in insertion order by the addition of the REAL column, every partial sum
  rounded.\<close>

definition ledger_balance_rounded :: "db \<Rightarrow> int \<Rightarrow> f64 option" where
  "ledger_balance_rounded d accountId =
     (case (f64_sum (completed_amounts d accountId ''deposit''),
            f64_sum (completed_amounts d accountId ''withdrawal'')) of
        (Some deposits, Some withdrawals) \<Rightarrow> f64_sub deposits withdrawals
      | _ \<Rightarrow> None)"

definition ledger_consistent_rounded :: "db \<Rightarrow> bool" where
  "ledger_consistent_rounded d =
     (\<forall>a \<in> set (accounts d). ledger_balance_rounded d (acc_id a) = Some (acc_balance a))"

text \<open>The databases that calls of \<open>createAccount\<close> and \<open>fundAccount\<close> reach from the
  empty one, whatever their arguments, clock and random source, and whether they
  succeed or fail. A call of \<open>createAccount\<close> that does not return is no step.\<close>

inductive reachable :: "db \<Rightarrow> bool" where
  reachable_empty: "reachable empty_db"
| reachable_createAccount:
    "reachable d \<Longrightarrow> createAccount now rnd d userId accountType = Some (r, d') \<Longrightarrow> reachable d'"
| reachable_fundAccount:
    "reachable d \<Longrightarrow> fundAccount e d userId accountId amount fundingSource = (r, d') \<Longrightarrow>
     reachable d'"

text \<open>What every reachable database satisfies, and what makes its ledger consistent:
  account identifiers are a key, every transaction is a deposit on a stored account, and
  every balance is a binary64 value equal to the sum of the completed deposits.\<close>

definition ledger_invariant :: "db \<Rightarrow> bool" where
  "ledger_invariant d =
     (distinct (map acc_id (accounts d)) \<and>
      (\<forall>t \<in> set (transactions d).
         tx_accountId t \<in> acc_id ` set (accounts d) \<and> tx_type t = ''deposit'') \<and>
      (\<forall>a \<in> set (accounts d).
         is_f64 (acc_balance a) \<and>
         f64_sum (completed_amounts d (acc_id a) ''deposit'') = Some (acc_balance a)))"

section \<open>Concrete databases and inputs\<close>

text \<open>The account and the funding source of the repository's integration test
  (\<^verbatim>\<open>src/__tests__/integration.test.ts\<close>): a checking account of user 1 with balance
  100, and a bank transfer.\<close>

definition account_test :: account where
  "account_test =
     \<lparr>acc_id = 1, acc_userId = 1, acc_accountNumber = ''2001'', acc_accountType = ''checking'',
      acc_balance = f64_lit 100 1, acc_status = Some ''active'',
      acc_createdAt = Some ''2023-01-01 09:00:00''\<rparr>"

definition db_test :: db where
  "db_test = \<lparr>accounts = [account_test], accounts_seq = 1, transactions = [],
               transactions_seq = 0\<rparr>"

definition env_test :: env where
  "env_test = \<lparr>env_current_timestamp = ''2023-01-01 10:00:00'',
                env_date_iso = ''2023-01-01T10:00:00.000Z''\<rparr>"

definition fs_bank :: fundingSource where
  "fs_bank = \<lparr>fs_type = Bank, fs_accountNumber = ''123'', fs_routingNumber = Some ''123456789''\<rparr>"

definition fs_bank_other :: fundingSource where
  "fs_bank_other =
     \<lparr>fs_type = Bank, fs_accountNumber = ''987'', fs_routingNumber = Some ''021000021''\<rparr>"

text \<open>A savings account of the same user that is not active.\<close>

definition account_pending :: account where
  "account_pending =
     \<lparr>acc_id = 2, acc_userId = 1, acc_accountNumber = ''2002'', acc_accountType = ''savings'',
      acc_balance = Fin 0, acc_status = Some ''pending'',
      acc_createdAt = Some ''2023-01-01 09:00:00''\<rparr>"

definition db_pending :: db where
  "db_pending = \<lparr>accounts = [account_test, account_pending], accounts_seq = 2,
                  transactions = [], transactions_seq = 0\<rparr>"

text \<open>An account whose number is the least one \<^verbatim>\<open>generateAccountNumber\<close> can produce,
  a random source that returns that number at every draw, and one that returns it at the
  first draw only.\<close>

definition account_taken :: account where
  "account_taken =
     \<lparr>acc_id = 1, acc_userId = 1, acc_accountNumber = ''1000000000'',
      acc_accountType = ''savings'', acc_balance = Fin 0, acc_status = Some ''active'',
      acc_createdAt = Some ''2023-01-01 09:00:00''\<rparr>"

definition db_taken :: db where
  "db_taken = \<lparr>accounts = [account_taken], accounts_seq = 1, transactions = [],
                transactions_seq = 0\<rparr>"

definition rnd_constant :: "nat \<Rightarrow> nat" where
  "rnd_constant i = 1000000000"

definition rnd_retry :: "nat \<Rightarrow> nat" where
  "rnd_retry i = 1000000000 + i"



text \<open>The three transactions of the integration test's sorting case, in the order the
  test inserts them, and two deposits made within one second, as \<^verbatim>\<open>CURRENT_TIMESTAMP\<close>
  counts.\<close>

definition tx_sort_1 :: transaction where
  "tx_sort_1 =
     \<lparr>tx_id = 1, tx_accountId = 1, tx_type = ''deposit'', tx_amount = f64_lit 10 1,
      tx_description = None, tx_status = ''completed'',
      tx_createdAt = Some ''2023-01-01T10:00:00Z'', tx_processedAt = None\<rparr>"

definition tx_sort_2 :: transaction where
  "tx_sort_2 =
     \<lparr>tx_id = 2, tx_accountId = 1, tx_type = ''deposit'', tx_amount = f64_lit 20 1,
      tx_description = None, tx_status = ''completed'',
      tx_createdAt = Some ''2023-01-02T10:00:00Z'', tx_processedAt = None\<rparr>"

definition tx_sort_3 :: transaction where
  "tx_sort_3 =
     \<lparr>tx_id = 3, tx_accountId = 1, tx_type = ''deposit'', tx_amount = f64_lit 30 1,
      tx_description = None, tx_status = ''completed'',
      tx_createdAt = Some ''2023-01-01T09:00:00Z'', tx_processedAt = None\<rparr>"

definition db_sorting :: db where
  "db_sorting = \<lparr>accounts = [account_test], accounts_seq = 1,
                  transactions = [tx_sort_1, tx_sort_2, tx_sort_3], transactions_seq = 3\<rparr>"

definition tx_tie_1 :: transaction where
  "tx_tie_1 =
     \<lparr>tx_id = 1, tx_accountId = 1, tx_type = ''deposit'', tx_amount = f64_lit 50 1,
      tx_description = Some ''Funding from bank'', tx_status = ''completed'',
      tx_createdAt = Some ''2023-01-01 10:00:00'',
      tx_processedAt = Some ''2023-01-01T10:00:00.000Z''\<rparr>"

definition tx_tie_2 :: transaction where
  "tx_tie_2 =
     \<lparr>tx_id = 2, tx_accountId = 1, tx_type = ''deposit'', tx_amount = f64_lit 50 1,
      tx_description = Some ''Funding from bank'', tx_status = ''completed'',
      tx_createdAt = Some ''2023-01-01 10:00:00'',
      tx_processedAt = Some ''2023-01-01T10:00:00.000Z''\<rparr>"

definition db_tie :: db where
  "db_tie = \<lparr>accounts = [account_test\<lparr>acc_balance := f64_lit 200 1\<rparr>], accounts_seq = 1,
              transactions = [tx_tie_1, tx_tie_2], transactions_seq = 2\<rparr>"

text \<open>The database after user 1 has created a checking account from the empty database
  and funded it once with 50.\<close>

definition account_new :: account where
  "account_new =
     \<lparr>acc_id = 1, acc_userId = 1, acc_accountNumber = ''1000000000'',
      acc_accountType = ''checking'', acc_balance = Fin 0, acc_status = Some ''active'',
      acc_createdAt = Some ''2023-01-01 09:00:00''\<rparr>"

definition db_created :: db where
  "db_created = \<lparr>accounts = [account_new], accounts_seq = 1, transactions = [],
                  transactions_seq = 0\<rparr>"

definition db_ledger :: db where
  "db_ledger = \<lparr>accounts = [account_new\<lparr>acc_balance := f64_lit 50 1\<rparr>], accounts_seq = 1,
                 transactions = [tx_tie_1], transactions_seq = 1\<rparr>"

text \<open>An account whose balance is \<open>2^53\<close>, the first whole number whose successor is
  not a binary64 value.\<close>

definition account_large :: account where
  "account_large =
     \<lparr>acc_id = 1, acc_userId = 1, acc_accountNumber = ''2001'', acc_accountType = ''checking'',
      acc_balance = Fin (9007199254740992 * 2 ^ 1074), acc_status = Some ''active'',
      acc_createdAt = Some ''2023-01-01 09:00:00''\<rparr>"

definition db_large :: db where
  "db_large = \<lparr>accounts = [account_large], accounts_seq = 1, transactions = [],
                transactions_seq = 0\<rparr>"

text \<open>The new account funded with 0.10, 0.20 and 0.30 by three calls one after the
  other.\<close>

definition db_drift :: db where
  "db_drift =
     snd (fundAccount env_test
            (snd (fundAccount env_test
                    (snd (fundAccount env_test db_created 1 1 (f64_lit 10 100) fs_bank))
                    1 1 (f64_lit 20 100) fs_bank))
            1 1 (f64_lit 30 100) fs_bank)"

text \<open>Three concurrent calls that fund the new account with 0.10, 0.20 and 0.30, and
  two concurrent calls that fund the test account with 50 each.\<close>

definition call_test :: "f64 \<Rightarrow> call" where
  "call_test x =
     \<lparr>c_env = env_test, c_userId = 1, c_accountId = 1, c_amount = x,
      c_fundingSource = fs_bank\<rparr>"

definition calls_drift :: "call list" where
  "calls_drift = [call_test (f64_lit 10 100), call_test (f64_lit 20 100),
                  call_test (f64_lit 30 100)]"

definition calls_fifty :: "call list" where
  "calls_fifty = [call_test (Fin (50 * 2 ^ 1074)), call_test (Fin (50 * 2 ^ 1074))]"

section \<open>Facts about binary64 rounding\<close>

lemma bit_length_eq: "2 ^ n \<le> a \<Longrightarrow> a < 2 ^ Suc n \<Longrightarrow> bit_length a = Suc n"
proof (induction n arbitrary: a)
  case 0
  then have "a = 1" by simp
  then show ?case by (simp add: bit_length.simps)
next
  case (Suc n)
  have pos: "0 < a" using Suc.prems(1) by (smt (verit) zero_less_power)
  have "2 ^ n \<le> a div 2" using Suc.prems(1) by simp
  moreover have "a div 2 < 2 ^ Suc n" using Suc.prems(2) by simp
  ultimately have "bit_length (a div 2) = Suc n" by (rule Suc.IH)
  then show ?case using pos by (subst bit_length.simps) simp
qed

lemma bit_length_le: "0 \<le> a \<Longrightarrow> a < 2 ^ n \<Longrightarrow> bit_length a \<le> n"
proof (induction n arbitrary: a)
  case 0
  then have "a = 0" by simp
  then show ?case by (simp add: bit_length.simps)
next
  case (Suc n)
  have "0 \<le> a div 2" using Suc.prems(1) by simp
  moreover have "a div 2 < 2 ^ n" using Suc.prems(2) by simp
  ultimately have "bit_length (a div 2) \<le> n" by (rule Suc.IH)
  then show ?case by (subst bit_length.simps) simp
qed

lemma round_f64_exact:
  assumes s: "s = m * 2 ^ j" and m: "\<bar>m\<bar> < 2 ^ 53" and b: "\<bar>s\<bar> < 2 ^ 2098"
  shows "round_f64 s 1 = Fin s"
proof -
  define k where "k = bit_length \<bar>s\<bar> - 53"
  have "\<bar>s\<bar> < 2 ^ (53 + j)" using s m by (simp add: abs_mult power_add)
  then have "bit_length \<bar>s\<bar> \<le> 53 + j" by (intro bit_length_le) simp_all
  then have "k \<le> j" by (simp add: k_def)
  then have "(2::int) ^ k dvd 2 ^ j" by (simp add: le_imp_power_dvd)
  then have "(2::int) ^ k dvd s" using s by simp
  then have d: "(2::int) ^ k dvd \<bar>s\<bar>" by simp
  then have r: "\<bar>s\<bar> mod 2 ^ k = 0" by simp
  have v: "\<bar>s\<bar> div 2 ^ k * 2 ^ k = \<bar>s\<bar>" using d by simp
  have "sgn s * \<bar>s\<bar> = s" by (simp add: mult_sgn_abs)
  then show ?thesis using b r v
    by (simp add: round_f64_def Let_def k_def [symmetric])
qed

lemma div_ge_int: "0 < (d::int) \<Longrightarrow> x * d \<le> n \<Longrightarrow> x \<le> n div d"
proof -
  assume d: "0 < d" and le: "x * d \<le> n"
  have "(x * d) div d \<le> n div d" using le d by (rule zdiv_mono1)
  then show ?thesis using d by simp
qed

lemma div_lt_int: "0 < (d::int) \<Longrightarrow> n < y * d \<Longrightarrow> n div d < y"
proof (rule ccontr)
  assume d: "0 < d" and lt: "n < y * d" and "\<not> n div d < y"
  then have "y \<le> n div d" by simp
  then have "y * d \<le> (n div d) * d" using d by (simp add: mult_right_mono)
  moreover have "n = (n div d) * d + n mod d" by simp
  moreover have "0 \<le> n mod d" using d by simp
  ultimately show False using lt by linarith
qed

lemma round_f64_cert:
  assumes d: "0 < d"
    and q: "2 ^ 52 \<le> q" "q < 2 ^ 53"
    and lo: "q * 2 ^ k * d \<le> n" and hi: "n < (q + 1) * 2 ^ k * d"
  shows "round_f64 n d =
     (let t = n - q * 2 ^ k * d;
          q' = (if 2 * t > 2 ^ k * d \<or> (2 * t = 2 ^ k * d \<and> odd q) then q + 1 else q);
          v = q' * 2 ^ k
      in if v \<ge> 2 ^ 2098 then PosInf else Fin v)"
proof -
  define a where "a = n div d"
  define r where "r = a - q * 2 ^ k"
  have p2: "(0::int) < 2 ^ k" by simp
  have qpos: "0 < q" using q(1) by (smt (verit) zero_less_power)
  have "0 < q * 2 ^ k * d" using qpos d p2 by simp
  then have npos: "0 < n" using lo by linarith
  have a_lo: "q * 2 ^ k \<le> a" unfolding a_def using d lo by (rule div_ge_int)
  have a_hi: "a < (q + 1) * 2 ^ k" unfolding a_def using d hi by (rule div_lt_int)
  have "2 ^ 52 * 2 ^ k \<le> q * 2 ^ k" using q(1) by (intro mult_right_mono) simp_all
  then have "2 ^ 52 * 2 ^ k \<le> a" using a_lo by (rule order_trans)
  then have b_lo: "2 ^ (52 + k) \<le> a" by (simp only: power_add)
  have "q + 1 \<le> 2 ^ 53" using q(2) by simp
  then have "(q + 1) * 2 ^ k \<le> 2 ^ 53 * 2 ^ k" by (intro mult_right_mono) simp_all
  then have "a < 2 ^ 53 * 2 ^ k" using a_hi by (rule less_le_trans [rotated])
  then have "a < 2 ^ (53 + k)" by (simp only: power_add)
  then have b_hi: "a < 2 ^ Suc (52 + k)" by simp
  have "bit_length a = Suc (52 + k)" using b_lo b_hi by (rule bit_length_eq)
  then have K: "bit_length a - 53 = k" by simp
  have r0: "0 \<le> r" "r < 2 ^ k" using a_lo a_hi by (simp_all add: r_def algebra_simps)
  have a_eq: "a = q * 2 ^ k + r" by (simp add: r_def)
  have Q: "a div 2 ^ k = q" unfolding a_eq using r0 by simp
  have R: "a mod 2 ^ k = r" unfolding a_eq using r0 by simp
  have "n mod d = n - a * d" unfolding a_def by (simp add: minus_div_mult_eq_mod)
  then have T: "r * d + n mod d = n - q * 2 ^ k * d" by (simp add: r_def algebra_simps)
  have abs: "\<bar>n\<bar> = n" using npos by simp
  have sg: "sgn n = 1" "(n < 0) = False" using npos by simp_all
  show ?thesis
    unfolding round_f64_def abs a_def [symmetric] Let_def K Q R T sg by simp
qed

text \<open>Every result of rounding is a binary64 value.\<close>

lemma bit_length_gt: "0 \<le> a \<Longrightarrow> a < 2 ^ bit_length a"
proof (induction a rule: bit_length.induct)
  case (1 a)
  show ?case
  proof (cases "a \<le> 0")
    case True
    then show ?thesis using 1(2) by (subst bit_length.simps) simp
  next
    case False
    then have "a div 2 < 2 ^ bit_length (a div 2)" using 1 by simp
    then have "a < 2 * 2 ^ bit_length (a div 2)" by linarith
    then show ?thesis using False by (subst bit_length.simps) simp
  qed
qed

lemma round_f64_quotient_bound:
  assumes "0 \<le> a"
  shows "a div 2 ^ (bit_length a - 53) < 2 ^ 53"
proof (cases "bit_length a \<le> 53")
  case True
  have "a < 2 ^ bit_length a" using assms by (rule bit_length_gt)
  also have "(2::int) ^ bit_length a \<le> 2 ^ 53" using True by (intro power_increasing) simp_all
  finally show ?thesis using True by simp
next
  case False
  define k where "k = bit_length a - 53"
  have "bit_length a = 53 + k" using False by (simp add: k_def)
  then have "a < 2 ^ (53 + k)" using bit_length_gt [OF assms] by simp
  then have "a < 2 ^ 53 * 2 ^ k" by (simp only: power_add)
  then have "a div 2 ^ k < 2 ^ 53" by (intro div_lt_int) simp_all
  then show ?thesis by (simp only: k_def)
qed

lemma round_f64_is_f64: "is_f64 (round_f64 n 1)"
proof -
  define a where "a = \<bar>n\<bar>"
  define k where "k = bit_length a - 53"
  define q where "q = a div 2 ^ k"
  define q' where "q' = (if 2 * (a mod 2 ^ k) > 2 ^ k \<or> (2 * (a mod 2 ^ k) = 2 ^ k \<and> odd q)
                         then q + 1 else q)"
  define v where "v = q' * 2 ^ k"
  have r: "round_f64 n 1 = (if v \<ge> 2 ^ 2098 then (if n < 0 then NegInf else PosInf)
                              else Fin (sgn n * v))"
    unfolding round_f64_def Let_def v_def q'_def q_def k_def a_def
    by (simp only: div_by_1 mod_by_1 mult_1_right add_0_right)
  have a0: "0 \<le> a" by (simp add: a_def)
  have q0: "0 \<le> q" using a0 by (simp add: q_def pos_imp_zdiv_nonneg_iff)
  have qb: "q < 2 ^ 53" unfolding q_def k_def using a0 by (rule round_f64_quotient_bound)
  have q'0: "0 \<le> q'" and q'b: "q' \<le> 2 ^ 53" using q0 qb by (simp_all add: q'_def)
  have v0: "0 \<le> v" using q'0 by (simp add: v_def)
  show ?thesis
  proof (cases "v \<ge> 2 ^ 2098")
    case True
    then show ?thesis by (simp add: r)
  next
    case False
    have ab: "\<bar>sgn n * v\<bar> < 2 ^ 2098"
    proof -
      have "\<bar>sgn n * v\<bar> \<le> v" using v0 by (simp add: abs_mult abs_sgn_eq)
      then show ?thesis using False by linarith
    qed
    have "round_f64 (sgn n * v) 1 = Fin (sgn n * v)"
    proof (cases "q' = 2 ^ 53")
      case True
      show ?thesis
      proof (rule round_f64_exact [where m = "sgn n" and j = "53 + k"])
        show "sgn n * v = sgn n * 2 ^ (53 + k)" by (simp add: v_def True power_add)
        show "\<bar>sgn n\<bar> < 2 ^ 53" by (simp add: abs_sgn_eq)
        show "\<bar>sgn n * v\<bar> < 2 ^ 2098" by (rule ab)
      qed
    next
      case False
      then have lt: "q' < 2 ^ 53" using q'b by simp
      show ?thesis
      proof (rule round_f64_exact [where m = "sgn n * q'" and j = k])
        show "sgn n * v = sgn n * q' * 2 ^ k" by (simp add: v_def)
        have "\<bar>sgn n * q'\<bar> \<le> q'" using q'0 by (simp add: abs_mult abs_sgn_eq)
        then show "\<bar>sgn n * q'\<bar> < 2 ^ 53" using lt by linarith
        show "\<bar>sgn n * v\<bar> < 2 ^ 2098" by (rule ab)
      qed
    qed
    then show ?thesis using False by (simp add: r)
  qed
qed

text \<open>The JavaScript literals \<^verbatim>\<open>0.01\<close>, \<^verbatim>\<open>0.1\<close>, \<^verbatim>\<open>0.2\<close> and \<^verbatim>\<open>0.3\<close> (written
  in minor units over 100), and whole numbers.\<close>

lemma f64_lit_int: "\<bar>n\<bar> < 2 ^ 53 \<Longrightarrow> f64_lit n 1 = Fin (n * 2 ^ 1074)"
  unfolding f64_lit_def
  by (rule round_f64_exact [where m = n and j = 1074]) (simp_all add: abs_mult)

lemma f64_lit_001: "f64_lit 1 100 = Fin (5764607523034235 * 2 ^ 1015)"
  unfolding f64_lit_def
  by (subst round_f64_cert [where q = 5764607523034234 and k = 1015]) (simp_all add: Let_def)

lemma f64_lit_010: "f64_lit 10 100 = Fin (7205759403792794 * 2 ^ 1018)"
  unfolding f64_lit_def
  by (subst round_f64_cert [where q = 7205759403792793 and k = 1018]) (simp_all add: Let_def)

lemma f64_lit_020: "f64_lit 20 100 = Fin (7205759403792794 * 2 ^ 1019)"
  unfolding f64_lit_def
  by (subst round_f64_cert [where q = 7205759403792793 and k = 1019]) (simp_all add: Let_def)

lemma f64_lit_030: "f64_lit 30 100 = Fin (5404319552844595 * 2 ^ 1020)"
  unfolding f64_lit_def
  by (subst round_f64_cert [where q = 5404319552844595 and k = 1020]) (simp_all add: Let_def)

text \<open>Additions: whole numbers add exactly; \<^verbatim>\<open>0.1 + 0.2\<close> does not.\<close>

lemma f64_add_int:
  assumes "\<bar>m\<bar> < 2 ^ 53" "\<bar>n\<bar> < 2 ^ 53" "\<bar>m + n\<bar> < 2 ^ 53"
  shows "f64_add (f64_lit m 1) (f64_lit n 1) = Some (f64_lit (m + n) 1)"
proof -
  have "round_f64 ((m + n) * 2 ^ 1074) 1 = Fin ((m + n) * 2 ^ 1074)"
    using assms(3) by (intro round_f64_exact [where m = "m + n" and j = 1074]) (simp_all add: abs_mult)
  then show ?thesis using assms by (simp add: f64_lit_int algebra_simps)
qed

lemma f64_add_zero_50: "f64_add (Fin 0) (f64_lit 50 1) = Some (f64_lit 50 1)"
  using f64_add_int [of 0 50] by (simp add: f64_lit_int)

lemma f64_add_zero_010: "f64_add (Fin 0) (f64_lit 10 100) = Some (f64_lit 10 100)"
  unfolding f64_lit_010 f64_add.simps
  using round_f64_exact [of "7205759403792794 * 2 ^ 1018" 7205759403792794 1018] by simp

lemma f64_add_010_020:
  "f64_add (f64_lit 10 100) (f64_lit 20 100) = Some (Fin (5404319552844596 * 2 ^ 1020))"
  unfolding f64_lit_010 f64_lit_020 f64_add.simps
  by (subst round_f64_cert [where q = 5404319552844595 and k = 1020]) (simp_all add: Let_def)

lemma f64_add_zero_030: "f64_add (Fin 0) (f64_lit 30 100) = Some (f64_lit 30 100)"
  unfolding f64_lit_030 f64_add.simps
  using round_f64_exact [of "5404319552844595 * 2 ^ 1020" 5404319552844595 1020] by simp

lemma f64_add_030_030:
  "f64_add (Fin (5404319552844596 * 2 ^ 1020)) (f64_lit 30 100) =
     Some (Fin (5404319552844596 * 2 ^ 1021))"
  unfolding f64_lit_030 f64_add.simps
  by (subst round_f64_cert [where q = 5404319552844595 and k = 1021]) (simp_all add: Let_def)

lemma f64_add_030_020: "f64_add (f64_lit 30 100) (f64_lit 20 100) = Some (Fin (2 ^ 1073))"
  unfolding f64_lit_030 f64_lit_020 f64_add.simps
  using round_f64_exact [of "2 ^ 1073" 1 1073] by simp

lemma f64_add_050_010:
  "f64_add (Fin (2 ^ 1073)) (f64_lit 10 100) = Some (Fin (5404319552844595 * 2 ^ 1021))"
  unfolding f64_lit_010 f64_add.simps
  by (subst round_f64_cert [where q = 5404319552844595 and k = 1021]) (simp_all add: Let_def)

lemma f64_add_defined: "b \<noteq> NegInf \<Longrightarrow> x \<noteq> NegInf \<Longrightarrow> \<exists>nb. f64_add b x = Some nb"
  by (cases b; cases x) simp_all

lemma validated_amount_not_NegInf: "f64_le (f64_lit 1 100) x \<Longrightarrow> x \<noteq> NegInf"
  by (auto simp: f64_lit_001)

lemma f64_add_is_f64: "f64_add b x = Some nb \<Longrightarrow> is_f64 nb"
  by (cases b; cases x) (auto simp: round_f64_is_f64)

lemma f64_sub_zero: "is_f64 b \<Longrightarrow> f64_sub b (Fin 0) = Some b"
  by (cases b) (simp_all add: f64_sub_def)

lemma is_f64_zero: "is_f64 (Fin 0)"
  using round_f64_exact [of 0 0 0] by simp

lemma f64_sum_Nil: "f64_sum [] = Some (Fin 0)"
  by (simp add: f64_sum_def f64_sum_from_def)

lemma f64_sum_snoc:
  "f64_sum (xs @ [x]) = (case f64_sum xs of None \<Rightarrow> None | Some s \<Rightarrow> f64_add s x)"
  by (simp add: f64_sum_def f64_sum_from_def)

lemma f64_add_large_one:
  "f64_add (Fin (9007199254740992 * 2 ^ 1074)) (Fin (1 * 2 ^ 1074)) =
     Some (Fin (9007199254740992 * 2 ^ 1074))"
  unfolding f64_add.simps
  by (subst round_f64_cert [where q = 4503599627370496 and k = 1075]) (simp_all add: Let_def)

lemma f64_add_whole:
  assumes "\<bar>m + n\<bar> < 2 ^ 53"
  shows "f64_add (Fin (m * 2 ^ 1074)) (Fin (n * 2 ^ 1074)) = Some (Fin ((m + n) * 2 ^ 1074))"
proof -
  have "round_f64 ((m + n) * 2 ^ 1074) 1 = Fin ((m + n) * 2 ^ 1074)"
    using assms by (rule f64_lit_int [unfolded f64_lit_def])
  then show ?thesis by (simp only: f64_add.simps distrib_right)
qed

lemma f64_sum_from_Nil: "f64_sum_from b [] = Some b"
  by (simp add: f64_sum_from_def)

lemma f64_sum_from_snoc:
  "f64_sum_from b (xs @ [x]) = (case f64_sum_from b xs of None \<Rightarrow> None | Some s \<Rightarrow> f64_add s x)"
  by (simp add: f64_sum_from_def)

lemma f64_sum_from_whole:
  assumes "\<forall>n \<in> set ns. 0 \<le> n" "0 \<le> m" "m + sum_list ns < 2 ^ 53"
  shows "f64_sum_from (Fin (m * 2 ^ 1074)) (map (\<lambda>n. Fin (n * 2 ^ 1074)) ns) =
     Some (Fin ((m + sum_list ns) * 2 ^ 1074))"
  using assms
proof (induction ns rule: rev_induct)
  case Nil
  then show ?case by (simp add: f64_sum_from_Nil)
next
  case (snoc n ns)
  have n0: "0 \<le> n" and ns0: "\<forall>n \<in> set ns. 0 \<le> n" using snoc.prems(1) by simp_all
  have s0: "0 \<le> sum_list ns" using ns0 by (simp add: sum_list_nonneg)
  have b: "m + sum_list ns + n < 2 ^ 53" using snoc.prems(3) by simp
  then have "m + sum_list ns < 2 ^ 53" using n0 by linarith
  then have ih: "f64_sum_from (Fin (m * 2 ^ 1074)) (map (\<lambda>n. Fin (n * 2 ^ 1074)) ns) =
     Some (Fin ((m + sum_list ns) * 2 ^ 1074))"
    using snoc.IH ns0 snoc.prems(2) by blast
  have "\<bar>(m + sum_list ns) + n\<bar> < 2 ^ 53" using b s0 n0 snoc.prems(2) by linarith
  then have st: "f64_add (Fin ((m + sum_list ns) * 2 ^ 1074)) (Fin (n * 2 ^ 1074)) =
      Some (Fin ((m + sum_list ns + n) * 2 ^ 1074))"
    by (rule f64_add_whole)
  have e: "f64_sum_from (Fin (m * 2 ^ 1074)) (map (\<lambda>n. Fin (n * 2 ^ 1074)) (ns @ [n])) =
      (case f64_sum_from (Fin (m * 2 ^ 1074)) (map (\<lambda>n. Fin (n * 2 ^ 1074)) ns) of
         None \<Rightarrow> None | Some s \<Rightarrow> f64_add s (Fin (n * 2 ^ 1074)))"
    by (simp only: map_append list.map f64_sum_from_snoc)
  have s: "m + sum_list (ns @ [n]) = m + sum_list ns + n" by simp
  show ?case by (simp only: e ih option.case st s)
qed

lemma f64_sum_whole:
  assumes "\<forall>n \<in> set ns. 0 \<le> n" "sum_list ns < 2 ^ 53"
  shows "f64_sum (map (\<lambda>n. Fin (n * 2 ^ 1074)) ns) = Some (Fin (sum_list ns * 2 ^ 1074))"
  using f64_sum_from_whole [of ns 0] assms by (simp add: f64_sum_def)

lemma exact_sum_whole:
  "exact_sum (map (\<lambda>n. Fin (n * 2 ^ 1074)) ns) = Some (sum_list ns * 2 ^ 1074)"
  by (induction ns) (simp_all add: distrib_right)

lemma round_f64_nonneg:
  assumes "0 \<le> n"
  shows "f64_le (Fin 0) (round_f64 n 1)"
proof -
  define a where "a = \<bar>n\<bar>"
  define k where "k = bit_length a - 53"
  define q where "q = a div 2 ^ k"
  define q' where "q' = (if 2 * (a mod 2 ^ k) > 2 ^ k \<or> (2 * (a mod 2 ^ k) = 2 ^ k \<and> odd q)
                         then q + 1 else q)"
  define v where "v = q' * 2 ^ k"
  have r: "round_f64 n 1 = (if v \<ge> 2 ^ 2098 then (if n < 0 then NegInf else PosInf)
                              else Fin (sgn n * v))"
    unfolding round_f64_def Let_def v_def q'_def q_def k_def a_def
    by (simp only: div_by_1 mod_by_1 mult_1_right add_0_right)
  have a0: "0 \<le> a" by (simp add: a_def)
  have q0: "0 \<le> q" using a0 by (simp add: q_def pos_imp_zdiv_nonneg_iff)
  have q'0: "0 \<le> q'" using q0 by (simp add: q'_def)
  have v0: "0 \<le> v" using q'0 by (simp add: v_def)
  show ?thesis
  proof (cases "v \<ge> 2 ^ 2098")
    case True
    then show ?thesis using assms by (simp add: r)
  next
    case False
    have "0 \<le> sgn n * v" using assms v0 by (simp add: sgn_if)
    then show ?thesis using False by (simp add: r)
  qed
qed

lemma f64_add_nonneg:
  assumes "f64_le (Fin 0) b" "f64_le (Fin 0) x"
  shows "\<exists>nb. f64_add b x = Some nb \<and> f64_le (Fin 0) nb"
proof (cases b)
  case (Fin m)
  show ?thesis
  proof (cases x)
    case (Fin n)
    have "0 \<le> m + n" using assms \<open>b = Fin m\<close> Fin by simp
    then show ?thesis using \<open>b = Fin m\<close> Fin by (simp add: round_f64_nonneg)
  next
    case PosInf
    then show ?thesis using \<open>b = Fin m\<close> by simp
  next
    case NegInf
    then show ?thesis using assms by simp
  qed
next
  case PosInf
  then show ?thesis using assms by (cases x) simp_all
next
  case NegInf
  then show ?thesis using assms by simp
qed

lemma validated_amount_nonneg:
  assumes "f64_le (f64_lit 1 100) x"
  shows "f64_le (Fin 0) x"
proof (cases x)
  case (Fin n)
  have "(0::int) \<le> 5764607523034235 * 2 ^ 1015" by simp
  moreover have "5764607523034235 * 2 ^ 1015 \<le> n"
    using assms unfolding Fin f64_lit_001 f64_le.simps .
  ultimately have "0 \<le> n" by (rule order_trans)
  then show ?thesis unfolding Fin f64_le.simps .
next
  case PosInf
  then show ?thesis by simp
next
  case NegInf
  then show ?thesis using assms by (simp add: f64_lit_001)
qed

lemma whole_units_nonneg: "f64_le (Fin 0) (Fin (n * 2 ^ 1074)) \<Longrightarrow> 0 \<le> n"
  by (simp add: zero_le_mult_iff)

section \<open>Facts about the account table\<close>

lemma select_account_None:
  "select_account d accountId userId = None \<longleftrightarrow>
     \<not> (\<exists>a \<in> set (accounts d). acc_id a = accountId \<and> acc_userId a = userId)"
  by (auto simp: select_account_def find_None_iff)

lemma select_account_Some:
  assumes "select_account d accountId userId = Some a"
  shows "a \<in> set (accounts d) \<and> acc_id a = accountId \<and> acc_userId a = userId"
  using assms unfolding select_account_def find_Some_iff by (metis nth_mem)

lemma primary_key_unique:
  assumes "distinct (map acc_id (xs :: account list))" "a \<in> set xs" "c \<in> set xs"
    "acc_id c = acc_id a"
  shows "c = a"
  using assms by (meson distinct_map inj_onD)

lemma select_account_primary_key:
  assumes pk: "distinct (map acc_id (accounts d))"
    and a: "a \<in> set (accounts d)" "acc_userId a = u"
  shows "select_account d (acc_id a) u = Some a"
proof (cases "select_account d (acc_id a) u")
  case None
  then show ?thesis using a by (simp add: select_account_None)
next
  case (Some c)
  then have "c \<in> set (accounts d)" "acc_id c = acc_id a"
    using select_account_Some by blast+
  then have "c = a" using pk a(1) by (meson primary_key_unique)
  then show ?thesis using Some by simp
qed

lemma update_balance_all:
  assumes "\<forall>c \<in> set xs. acc_id c = accountId \<longrightarrow> f64_add (acc_balance c) x = Some nb"
  shows "update_balance xs accountId x =
           Some (map (\<lambda>c. if acc_id c = accountId then c\<lparr>acc_balance := nb\<rparr> else c) xs)"
  using assms by (induction xs) auto

lemma filter_updated_head:
  assumes "a \<in> set (xs :: account list)" "acc_id a = accountId"
  shows "\<exists>c cs. filter (\<lambda>c. acc_id c = accountId)
             (map (\<lambda>c. if acc_id c = accountId then c\<lparr>acc_balance := nb\<rparr> else c) xs) = c # cs \<and>
           acc_balance c = nb"
proof -
  define f :: "account \<Rightarrow> account"
    where "f = (\<lambda>c. if acc_id c = accountId then c\<lparr>acc_balance := nb\<rparr> else c)"
  have f_id: "acc_id (f y) = acc_id y" for y by (simp add: f_def)
  have f_bal: "acc_id y = accountId \<Longrightarrow> acc_balance (f y) = nb" for y by (simp add: f_def)
  let ?ys = "filter (\<lambda>c. acc_id c = accountId) (map f xs)"
  have "f a \<in> set ?ys" using assms by (simp add: f_id)
  then obtain c cs where ys: "?ys = c # cs" by (cases ?ys) auto
  then have "c \<in> set ?ys" by simp
  then obtain y where y: "c = f y" "acc_id c = accountId" by auto
  then have "acc_balance c = nb" using f_id f_bal by simp
  then show ?thesis using ys unfolding f_def by blast
qed

lemma pk_update_map:
  assumes pk: "distinct (map acc_id (xs :: account list))" and a: "a \<in> set xs"
  shows "map (\<lambda>c. if acc_id c = acc_id a then c\<lparr>acc_balance := nb\<rparr> else c) xs =
         map (\<lambda>c. if c = a then a\<lparr>acc_balance := nb\<rparr> else c) xs"
  using primary_key_unique [OF pk a] by (intro map_cong) auto

lemma fundAccount_success:
  assumes pk: "distinct (map acc_id (accounts d))"
    and a: "a \<in> set (accounts d)" "acc_userId a = u" "acc_status a = Some ''active''"
    and nb: "f64_add (acc_balance a) x = Some nb"
  shows "\<exists>tx.
      fundAccount e d u (acc_id a) x fs =
        (Inr \<lparr>res_transaction = tx, res_newBalance = nb\<rparr>,
         d\<lparr>transactions := transactions d @ [tx], transactions_seq := tx_id tx,
           accounts := map (\<lambda>c. if c = a then a\<lparr>acc_balance := nb\<rparr> else c) (accounts d)\<rparr>) \<and>
      tx_accountId tx = acc_id a \<and> tx_type tx = ''deposit'' \<and> tx_amount tx = x \<and>
      tx_status tx = ''completed'' \<and>
      tx_description tx = Some (''Funding from '' @ fundingSourceType_text (fs_type fs))"
proof -
  have sel: "select_account d (acc_id a) u = Some a"
    using pk a(1,2) by (rule select_account_primary_key)
  have "\<forall>c \<in> set (accounts d). acc_id c = acc_id a \<longrightarrow> f64_add (acc_balance c) x = Some nb"
    using primary_key_unique [OF pk a(1)] nb by auto
  then have upd: "update_balance (accounts d) (acc_id a) x =
      Some (map (\<lambda>c. if acc_id c = acc_id a then c\<lparr>acc_balance := nb\<rparr> else c) (accounts d))"
    by (rule update_balance_all)
  obtain c cs where hd: "filter (\<lambda>c. acc_id c = acc_id a)
      (map (\<lambda>c. if acc_id c = acc_id a then c\<lparr>acc_balance := nb\<rparr> else c) (accounts d)) = c # cs"
      "acc_balance c = nb"
    using filter_updated_head [OF a(1) refl] by blast
  show ?thesis
    using sel a(3) upd hd pk_update_map [OF pk a(1)]
    by (simp add: fundAccount_def fund_transaction_def insert_transaction_def Let_def)
qed

lemma map_acc_id_update:
  assumes "acc_id a' = acc_id a"
  shows "map acc_id (map (\<lambda>c. if c = a then a' else c) (xs :: account list)) = map acc_id xs"
  using assms by (induction xs) auto

lemma updated_account_mem:
  "a \<in> set (xs :: account list) \<Longrightarrow> a' \<in> set (map (\<lambda>c. if c = a then a' else c) xs)"
  by (induction xs) auto

section \<open>Funding an active account\<close>

text \<open>
  Claim C1, as the code has it. For a user \<open>u\<close> and an active account \<open>a\<close> of \<open>u\<close>
  (identifiers being the primary key) whose balance is not \<open>-Infinity\<close>, and a validated
  amount \<open>x \<ge> 0.01\<close>, \<open>fundAccount\<close> succeeds: the returned transaction has status
  \<open>completed\<close>, kind \<open>deposit\<close> and amount \<open>x\<close>, exactly this one transaction is appended
  to the log, and only the balance of \<open>a\<close> changes. The returned \<open>newBalance\<close>, which is
  the stored one, is the binary64 sum of the balance and \<open>x\<close>: for finite values the exact
  sum rounded to the nearest binary64 value, and the exact sum itself whenever that is a
  binary64 value. Two sequential calls of 50 on an account of balance 100 end with
  balance exactly 200 and exactly two more transactions, both completed.
\<close>

theorem fundAccount_deposit_rounded:
  assumes pk: "distinct (map acc_id (accounts d))"
    and a: "a \<in> set (accounts d)" "acc_userId a = u" "acc_status a = Some ''active''"
    and b: "acc_balance a \<noteq> NegInf"
    and x: "f64_le (f64_lit 1 100) x"
  shows "(\<exists>tx nb d'.
            fundAccount e d u (acc_id a) x fs =
              (Inr \<lparr>res_transaction = tx, res_newBalance = nb\<rparr>, d') \<and>
            tx_status tx = ''completed'' \<and> tx_type tx = ''deposit'' \<and> tx_amount tx = x \<and>
            tx_accountId tx = acc_id a \<and>
            f64_add (acc_balance a) x = Some nb \<and>
            (\<forall>b y. acc_balance a = Fin b \<and> x = Fin y \<longrightarrow>
               nb = round_f64 (b + y) 1 \<and>
               (\<forall>m j. b + y = m * 2 ^ j \<and> \<bar>m\<bar> < 2 ^ 53 \<and> \<bar>b + y\<bar> < 2 ^ 2098 \<longrightarrow>
                  nb = Fin (b + y))) \<and>
            transactions d' = transactions d @ [tx] \<and>
            accounts d' = map (\<lambda>c. if c = a then a\<lparr>acc_balance := nb\<rparr> else c) (accounts d)) \<and>
         (acc_balance a = Fin (100 * 2 ^ 1074) \<longrightarrow>
            (\<exists>tx1 nb1 d1 tx2 d2.
               fundAccount e d u (acc_id a) (Fin (50 * 2 ^ 1074)) fs =
                 (Inr \<lparr>res_transaction = tx1, res_newBalance = nb1\<rparr>, d1) \<and>
               fundAccount e' d1 u (acc_id a) (Fin (50 * 2 ^ 1074)) fs' =
                 (Inr \<lparr>res_transaction = tx2, res_newBalance = Fin (200 * 2 ^ 1074)\<rparr>, d2) \<and>
               select_account d2 (acc_id a) u = Some (a\<lparr>acc_balance := Fin (200 * 2 ^ 1074)\<rparr>) \<and>
               transactions d2 = transactions d @ [tx1, tx2] \<and>
               tx_status tx1 = ''completed'' \<and> tx_status tx2 = ''completed''))"
proof (intro conjI impI)
  have "x \<noteq> NegInf" using x by (rule validated_amount_not_NegInf)
  then obtain nb where nb: "f64_add (acc_balance a) x = Some nb"
    using b f64_add_defined by blast
  obtain tx where tx:
    "fundAccount e d u (acc_id a) x fs =
        (Inr \<lparr>res_transaction = tx, res_newBalance = nb\<rparr>,
         d\<lparr>transactions := transactions d @ [tx], transactions_seq := tx_id tx,
           accounts := map (\<lambda>c. if c = a then a\<lparr>acc_balance := nb\<rparr> else c) (accounts d)\<rparr>)"
    "tx_accountId tx = acc_id a" "tx_type tx = ''deposit''" "tx_amount tx = x"
    "tx_status tx = ''completed''"
    using fundAccount_success [OF pk a nb, of e fs] by blast
  have rounded: "nb = round_f64 (b' + y) 1 \<and>
      (\<forall>m j. b' + y = m * 2 ^ j \<and> \<bar>m\<bar> < 2 ^ 53 \<and> \<bar>b' + y\<bar> < 2 ^ 2098 \<longrightarrow> nb = Fin (b' + y))"
    if h: "acc_balance a = Fin b' \<and> x = Fin y" for b' y
  proof -
    have r: "nb = round_f64 (b' + y) 1" using nb h by simp
    have "nb = Fin (b' + y)"
      if e: "b' + y = m * 2 ^ j \<and> \<bar>m\<bar> < 2 ^ 53 \<and> \<bar>b' + y\<bar> < 2 ^ 2098" for m j
    proof -
      have "round_f64 (b' + y) 1 = Fin (b' + y)"
      proof (rule round_f64_exact [where m = m and j = j])
        show "b' + y = m * 2 ^ j" using e by blast
        show "\<bar>m\<bar> < 2 ^ 53" using e by blast
        show "\<bar>b' + y\<bar> < 2 ^ 2098" using e by blast
      qed
      then show ?thesis using r by simp
    qed
    then show ?thesis using r by blast
  qed
  show "\<exists>tx nb d'.
            fundAccount e d u (acc_id a) x fs =
              (Inr \<lparr>res_transaction = tx, res_newBalance = nb\<rparr>, d') \<and>
            tx_status tx = ''completed'' \<and> tx_type tx = ''deposit'' \<and> tx_amount tx = x \<and>
            tx_accountId tx = acc_id a \<and>
            f64_add (acc_balance a) x = Some nb \<and>
            (\<forall>b y. acc_balance a = Fin b \<and> x = Fin y \<longrightarrow>
               nb = round_f64 (b + y) 1 \<and>
               (\<forall>m j. b + y = m * 2 ^ j \<and> \<bar>m\<bar> < 2 ^ 53 \<and> \<bar>b + y\<bar> < 2 ^ 2098 \<longrightarrow>
                  nb = Fin (b + y))) \<and>
            transactions d' = transactions d @ [tx] \<and>
            accounts d' = map (\<lambda>c. if c = a then a\<lparr>acc_balance := nb\<rparr> else c) (accounts d)"
  proof (intro exI conjI allI impI)
    show "fundAccount e d u (acc_id a) x fs =
        (Inr \<lparr>res_transaction = tx, res_newBalance = nb\<rparr>,
         d\<lparr>transactions := transactions d @ [tx], transactions_seq := tx_id tx,
           accounts := map (\<lambda>c. if c = a then a\<lparr>acc_balance := nb\<rparr> else c) (accounts d)\<rparr>)"
      by (rule tx(1))
    show "tx_status tx = ''completed''" "tx_type tx = ''deposit''" "tx_amount tx = x"
      "tx_accountId tx = acc_id a" by (rule tx)+
    show "f64_add (acc_balance a) x = Some nb" by (rule nb)
    show "nb = round_f64 (b' + y) 1" if "acc_balance a = Fin b' \<and> x = Fin y" for b' y
      using rounded [OF that] by blast
    show "nb = Fin (b' + y)"
      if "acc_balance a = Fin b' \<and> x = Fin y"
        "b' + y = m * 2 ^ j \<and> \<bar>m\<bar> < 2 ^ 53 \<and> \<bar>b' + y\<bar> < 2 ^ 2098" for b' y m j
      using rounded [OF that(1)] that(2) by blast
    show "transactions
           (d\<lparr>transactions := transactions d @ [tx], transactions_seq := tx_id tx,
              accounts := map (\<lambda>c. if c = a then a\<lparr>acc_balance := nb\<rparr> else c) (accounts d)\<rparr>) =
          transactions d @ [tx]" by simp
    show "accounts
           (d\<lparr>transactions := transactions d @ [tx], transactions_seq := tx_id tx,
              accounts := map (\<lambda>c. if c = a then a\<lparr>acc_balance := nb\<rparr> else c) (accounts d)\<rparr>) =
          map (\<lambda>c. if c = a then a\<lparr>acc_balance := nb\<rparr> else c) (accounts d)" by simp
  qed
next
  assume bal: "acc_balance a = Fin (100 * 2 ^ 1074)"
  define a1 where "a1 = a\<lparr>acc_balance := Fin (150 * 2 ^ 1074)\<rparr>"
  have "f64_add (Fin (100 * 2 ^ 1074)) (Fin (50 * 2 ^ 1074)) = Some (Fin ((100 + 50) * 2 ^ 1074))"
    by (rule f64_add_whole) simp
  then have s1: "f64_add (acc_balance a) (Fin (50 * 2 ^ 1074)) = Some (Fin (150 * 2 ^ 1074))"
    unfolding bal by simp
  obtain tx1 where t1:
    "fundAccount e d u (acc_id a) (Fin (50 * 2 ^ 1074)) fs =
       (Inr \<lparr>res_transaction = tx1, res_newBalance = Fin (150 * 2 ^ 1074)\<rparr>,
        d\<lparr>transactions := transactions d @ [tx1], transactions_seq := tx_id tx1,
          accounts := map (\<lambda>c. if c = a then a1 else c) (accounts d)\<rparr>)"
    "tx_status tx1 = ''completed''"
    using fundAccount_success [OF pk a s1, of e fs] unfolding a1_def by blast
  define d1 where "d1 = d\<lparr>transactions := transactions d @ [tx1], transactions_seq := tx_id tx1,
          accounts := map (\<lambda>c. if c = a then a1 else c) (accounts d)\<rparr>"
  have i1: "acc_id a1 = acc_id a" by (simp add: a1_def)
  have "map acc_id (accounts d1) = map acc_id (accounts d)"
    unfolding d1_def using map_acc_id_update [OF i1] by simp
  then have pk1: "distinct (map acc_id (accounts d1))" using pk by simp
  have m1: "a1 \<in> set (accounts d1)"
    unfolding d1_def using updated_account_mem [OF a(1)] by simp
  have o1: "acc_userId a1 = u" "acc_status a1 = Some ''active''" "acc_id a1 = acc_id a"
    using a by (simp_all add: a1_def)
  have "f64_add (Fin (150 * 2 ^ 1074)) (Fin (50 * 2 ^ 1074)) = Some (Fin ((150 + 50) * 2 ^ 1074))"
    by (rule f64_add_whole) simp
  then have s2: "f64_add (acc_balance a1) (Fin (50 * 2 ^ 1074)) = Some (Fin (200 * 2 ^ 1074))"
    by (simp add: a1_def)
  define a2 where "a2 = a1\<lparr>acc_balance := Fin (200 * 2 ^ 1074)\<rparr>"
  obtain tx2 where t2:
    "fundAccount e' d1 u (acc_id a) (Fin (50 * 2 ^ 1074)) fs' =
       (Inr \<lparr>res_transaction = tx2, res_newBalance = Fin (200 * 2 ^ 1074)\<rparr>,
        d1\<lparr>transactions := transactions d1 @ [tx2], transactions_seq := tx_id tx2,
          accounts := map (\<lambda>c. if c = a1 then a2 else c) (accounts d1)\<rparr>)"
    "tx_status tx2 = ''completed''"
    using fundAccount_success [OF pk1 m1 o1(1,2) s2, of e' fs'] unfolding a2_def o1(3) by blast
  define d2 where "d2 = d1\<lparr>transactions := transactions d1 @ [tx2], transactions_seq := tx_id tx2,
          accounts := map (\<lambda>c. if c = a1 then a2 else c) (accounts d1)\<rparr>"
  have i2: "acc_id a2 = acc_id a1" by (simp add: a2_def)
  have "map acc_id (accounts d2) = map acc_id (accounts d1)"
    unfolding d2_def using map_acc_id_update [OF i2] by simp
  then have pk2: "distinct (map acc_id (accounts d2))" using pk1 by simp
  have m2: "a2 \<in> set (accounts d2)"
    unfolding d2_def using updated_account_mem [OF m1] by simp
  have o2: "acc_userId a2 = u" "acc_id a2 = acc_id a"
    "a2 = a\<lparr>acc_balance := Fin (200 * 2 ^ 1074)\<rparr>"
    using o1 by (simp_all add: a2_def a1_def)
  have "select_account d2 (acc_id a2) u = Some a2"
    using pk2 m2 o2(1) by (rule select_account_primary_key)
  then have "select_account d2 (acc_id a) u = Some a2" by (simp only: o2(2))
  then have sel: "select_account d2 (acc_id a) u =
      Some (a\<lparr>acc_balance := Fin (200 * 2 ^ 1074)\<rparr>)"
    by (simp only: o2(3))
  have tr: "transactions d2 = transactions d @ [tx1, tx2]"
    by (simp add: d2_def d1_def)
  show "\<exists>tx1 nb1 d1 tx2 d2.
               fundAccount e d u (acc_id a) (Fin (50 * 2 ^ 1074)) fs =
                 (Inr \<lparr>res_transaction = tx1, res_newBalance = nb1\<rparr>, d1) \<and>
               fundAccount e' d1 u (acc_id a) (Fin (50 * 2 ^ 1074)) fs' =
                 (Inr \<lparr>res_transaction = tx2, res_newBalance = Fin (200 * 2 ^ 1074)\<rparr>, d2) \<and>
               select_account d2 (acc_id a) u = Some (a\<lparr>acc_balance := Fin (200 * 2 ^ 1074)\<rparr>) \<and>
               transactions d2 = transactions d @ [tx1, tx2] \<and>
               tx_status tx1 = ''completed'' \<and> tx_status tx2 = ''completed''"
    using t1 t2 sel tr unfolding d1_def [symmetric] d2_def [symmetric] by blast
qed


theorem fundAccount_deposit_rounded_witness:
  "distinct (map acc_id (accounts db_test)) \<and> account_test \<in> set (accounts db_test) \<and>
   acc_userId account_test = 1 \<and> acc_status account_test = Some ''active'' \<and>
   acc_balance account_test \<noteq> NegInf \<and> f64_le (f64_lit 1 100) (Fin (50 * 2 ^ 1074)) \<and>
   acc_balance account_test = Fin (100 * 2 ^ 1074) \<and>
   (\<exists>tx1 nb1 d1 tx2 d2.
      fundAccount env_test db_test 1 1 (Fin (50 * 2 ^ 1074)) fs_bank =
        (Inr \<lparr>res_transaction = tx1, res_newBalance = nb1\<rparr>, d1) \<and>
      fundAccount env_test d1 1 1 (Fin (50 * 2 ^ 1074)) fs_bank =
        (Inr \<lparr>res_transaction = tx2, res_newBalance = Fin (200 * 2 ^ 1074)\<rparr>, d2) \<and>
      select_account d2 1 1 = Some (account_test\<lparr>acc_balance := Fin (200 * 2 ^ 1074)\<rparr>) \<and>
      transactions d2 = [tx1, tx2] \<and>
      tx_status tx1 = ''completed'' \<and> tx_status tx2 = ''completed'') \<and>
   f64_exact_ratio (Fin (200 * 2 ^ 1074)) 200 1"
proof -
  have h1: "distinct (map acc_id (accounts db_test))" by (simp add: db_test_def)
  have h2: "account_test \<in> set (accounts db_test)" by (simp add: db_test_def)
  have h3: "acc_userId account_test = 1" by (simp add: account_test_def)
  have h4: "acc_status account_test = Some ''active''" by (simp add: account_test_def)
  have "acc_balance account_test = f64_lit 100 1" by (simp add: account_test_def)
  then have h7: "acc_balance account_test = Fin (100 * 2 ^ 1074)" by (simp add: f64_lit_int)
  have h5: "acc_balance account_test \<noteq> NegInf" unfolding h7 by simp
  have h6: "f64_le (f64_lit 1 100) (Fin (50 * 2 ^ 1074))" by (simp add: f64_lit_001)
  have i: "acc_id account_test = 1" by (simp add: account_test_def)
  have t: "transactions db_test = []" by (simp add: db_test_def)
  have ex: "f64_exact_ratio (Fin (200 * 2 ^ 1074)) 200 1" by simp
  note th = fundAccount_deposit_rounded [OF h1 h2 h3 h4 h5 h6, of env_test fs_bank env_test fs_bank]
  have "\<exists>tx1 nb1 d1 tx2 d2.
      fundAccount env_test db_test 1 (acc_id account_test) (Fin (50 * 2 ^ 1074)) fs_bank =
        (Inr \<lparr>res_transaction = tx1, res_newBalance = nb1\<rparr>, d1) \<and>
      fundAccount env_test d1 1 (acc_id account_test) (Fin (50 * 2 ^ 1074)) fs_bank =
        (Inr \<lparr>res_transaction = tx2, res_newBalance = Fin (200 * 2 ^ 1074)\<rparr>, d2) \<and>
      select_account d2 (acc_id account_test) 1 =
        Some (account_test\<lparr>acc_balance := Fin (200 * 2 ^ 1074)\<rparr>) \<and>
      transactions d2 = transactions db_test @ [tx1, tx2] \<and>
      tx_status tx1 = ''completed'' \<and> tx_status tx2 = ''completed''"
    using th h7 by blast
  then have sc: "\<exists>tx1 nb1 d1 tx2 d2.
      fundAccount env_test db_test 1 1 (Fin (50 * 2 ^ 1074)) fs_bank =
        (Inr \<lparr>res_transaction = tx1, res_newBalance = nb1\<rparr>, d1) \<and>
      fundAccount env_test d1 1 1 (Fin (50 * 2 ^ 1074)) fs_bank =
        (Inr \<lparr>res_transaction = tx2, res_newBalance = Fin (200 * 2 ^ 1074)\<rparr>, d2) \<and>
      select_account d2 1 1 = Some (account_test\<lparr>acc_balance := Fin (200 * 2 ^ 1074)\<rparr>) \<and>
      transactions d2 = [tx1, tx2] \<and>
      tx_status tx1 = ''completed'' \<and> tx_status tx2 = ''completed''"
    unfolding i t append_Nil .
  show ?thesis using h1 h2 h3 h4 h5 h6 h7 sc ex by blast
qed


text \<open>
  Claim C1 as stated fails: \<open>newBalance\<close> is not always the balance plus the amount. An
  account of balance \<open>2^53\<close> funded with 1 meets every condition of the claim; the call
  succeeds and records the deposit, and the returned and the stored balance are still
  \<open>2^53\<close>, not \<open>2^53 + 1\<close>.
\<close>

theorem fundAccount_absorbs_amount:
  "distinct (map acc_id (accounts db_large)) \<and> account_large \<in> set (accounts db_large) \<and>
   acc_userId account_large = 1 \<and> acc_status account_large = Some ''active'' \<and>
   acc_balance account_large = Fin (9007199254740992 * 2 ^ 1074) \<and>
   f64_le (f64_lit 1 100) (Fin (1 * 2 ^ 1074)) \<and>
   map_sum id res_newBalance (fst (fundAccount env_test db_large 1 1 (Fin (1 * 2 ^ 1074)) fs_bank)) =
     Inr (Fin (9007199254740992 * 2 ^ 1074)) \<and>
   map acc_balance (accounts (snd (fundAccount env_test db_large 1 1 (Fin (1 * 2 ^ 1074)) fs_bank))) =
     [Fin (9007199254740992 * 2 ^ 1074)] \<and>
   \<not> f64_exact_ratio (Fin (9007199254740992 * 2 ^ 1074)) (9007199254740992 + 1) 1"
proof -
  have v: "f64_le (f64_lit 1 100) (Fin (1 * 2 ^ 1074))" by (simp add: f64_lit_001)
  have r: "map_sum id res_newBalance
        (fst (fundAccount env_test db_large 1 1 (Fin (1 * 2 ^ 1074)) fs_bank)) =
      Inr (Fin (9007199254740992 * 2 ^ 1074)) \<and>
    map acc_balance
        (accounts (snd (fundAccount env_test db_large 1 1 (Fin (1 * 2 ^ 1074)) fs_bank))) =
      [Fin (9007199254740992 * 2 ^ 1074)]"
    using f64_add_large_one
    by (simp add: fundAccount_def fund_transaction_def insert_transaction_def select_account_def
        db_large_def account_large_def Let_def)
  have n: "\<not> f64_exact_ratio (Fin (9007199254740992 * 2 ^ 1074)) (9007199254740992 + 1) 1"
    by simp
  show ?thesis
    using v r n by (simp add: db_large_def account_large_def)
qed


section \<open>Rejected calls\<close>

text \<open>
  Claim C3. For an account whose status is anything but \<open>active\<close> (\<open>pending\<close>, \<open>closed\<close>,
  NULL), \<open>fundAccount\<close> called by the owner fails with the inactive-account error
  (\<^verbatim>\<open>BAD_REQUEST\<close>, "Account is not active") and returns the database as it was:
  balances, transactions and everything else are unchanged.
\<close>

theorem fundAccount_inactive:
  assumes pk: "distinct (map acc_id (accounts d))"
    and a: "a \<in> set (accounts d)" "acc_userId a = u"
    and st: "acc_status a \<noteq> Some ''active''"
  shows "fundAccount e d u (acc_id a) x fs = (Inl InactiveAccount, d)"
  using select_account_primary_key [OF pk a] st
  by (simp add: fundAccount_def InactiveAccount_def)

theorem fundAccount_inactive_witness:
  "distinct (map acc_id (accounts db_pending)) \<and> account_pending \<in> set (accounts db_pending) \<and>
   acc_userId account_pending = 1 \<and> acc_status account_pending \<noteq> Some ''active'' \<and>
   fundAccount env_test db_pending 1 2 (f64_lit 50 1) fs_bank = (Inl InactiveAccount, db_pending)"
proof -
  have h1: "distinct (map acc_id (accounts db_pending))"
    by (simp add: db_pending_def account_test_def account_pending_def)
  have h2: "account_pending \<in> set (accounts db_pending)" by (simp add: db_pending_def)
  have h3: "acc_userId account_pending = 1" by (simp add: account_pending_def)
  have h4: "acc_status account_pending \<noteq> Some ''active''" by (simp add: account_pending_def)
  have i: "acc_id account_pending = 2" by (simp add: account_pending_def)
  show ?thesis
    using fundAccount_inactive [OF h1 h2 h3 h4, of env_test "f64_lit 50 1" fs_bank] h1 h2 h3 h4
    unfolding i by simp
qed

text \<open>
  Claim C4. When no account with identifier \<open>accountId\<close> is owned by \<open>u\<close> (there is no
  such account, or it belongs to another user), \<open>fundAccount\<close> and \<open>getTransactions\<close> both
  fail with the same not-found error (\<^verbatim>\<open>NOT_FOUND\<close>, "Account not found"), whichever
  of the two cases holds, and \<open>fundAccount\<close> returns the database unchanged.
\<close>

theorem not_owned_NotFound:
  assumes "\<not> (\<exists>a \<in> set (accounts d). acc_id a = accountId \<and> acc_userId a = u)"
  shows "fundAccount e d u accountId x fs = (Inl NotFound, d) \<and>
         getTransactions orderBy d u accountId = Inl NotFound"
proof -
  have "select_account d accountId u = None"
    using assms by (simp only: select_account_None not_False_eq_True)
  then show ?thesis
    by (simp add: fundAccount_def getTransactions_def NotFound_def)
qed

theorem not_owned_NotFound_witness:
  "\<not> (\<exists>a \<in> set (accounts db_test). acc_id a = 1 \<and> acc_userId a = 2) \<and>
   \<not> (\<exists>a \<in> set (accounts db_test). acc_id a = 99 \<and> acc_userId a = 1) \<and>
   fundAccount env_test db_test 2 1 (f64_lit 50 1) fs_bank = (Inl NotFound, db_test) \<and>
   getTransactions stable_order_by db_test 2 1 = Inl NotFound \<and>
   fundAccount env_test db_test 1 99 (f64_lit 50 1) fs_bank = (Inl NotFound, db_test) \<and>
   getTransactions stable_order_by db_test 1 99 = Inl NotFound"
proof -
  have h1: "\<not> (\<exists>a \<in> set (accounts db_test). acc_id a = 1 \<and> acc_userId a = 2)"
    by (simp add: db_test_def account_test_def)
  have h2: "\<not> (\<exists>a \<in> set (accounts db_test). acc_id a = 99 \<and> acc_userId a = 1)"
    by (simp add: db_test_def account_test_def)
  show ?thesis
    using not_owned_NotFound [OF h1, of env_test "f64_lit 50 1" fs_bank stable_order_by]
      not_owned_NotFound [OF h2, of env_test "f64_lit 50 1" fs_bank stable_order_by] h1 h2
    by simp
qed

section \<open>The funding source\<close>

text \<open>
  Claim C10. Two \<open>fundAccount\<close> calls that differ only in the account number and the
  routing number of the funding source (same user, account, amount, environment and
  source type) return the same result and leave the same database: nothing but the type
  of the source reaches the stored rows or the returned values.
\<close>

theorem funding_source_noninterference:
  assumes "fs_type fs = fs_type fs'"
  shows "fundAccount e d u accountId x fs = fundAccount e d u accountId x fs'"
proof -
  have "fund_transaction e d accountId x fs = fund_transaction e d accountId x fs'"
    using assms by (simp add: fund_transaction_def)
  then show ?thesis by (simp add: fundAccount_def split: option.split)
qed

theorem funding_source_noninterference_witness:
  "fs_type fs_bank = fs_type fs_bank_other \<and> fs_bank \<noteq> fs_bank_other \<and>
   fundAccount env_test db_test 1 1 (f64_lit 50 1) fs_bank =
   fundAccount env_test db_test 1 1 (f64_lit 50 1) fs_bank_other"
proof -
  have h: "fs_type fs_bank = fs_type fs_bank_other" by (simp add: fs_bank_def fs_bank_other_def)
  have n: "fs_bank \<noteq> fs_bank_other" by (simp add: fs_bank_def fs_bank_other_def)
  show ?thesis
    using funding_source_noninterference [OF h, of env_test db_test 1 1 "f64_lit 50 1"] h n
    by simp
qed

section \<open>The loop that generates the account number\<close>

lemma find_collides:
  "(find (\<lambda>a. acc_accountNumber a = generateAccountNumber r) accts = None) = (\<not> collides accts r)"
  by (auto simp: find_None_iff collides_def)

lemma unique_loop_first_free:
  assumes "\<not> collides accts (rnd (i + k))" "\<forall>j < k. collides accts (rnd (i + j))"
  shows "unique_loop accts rnd i = Some (generateAccountNumber (rnd (i + k)))"
  using assms
proof (induction k arbitrary: i)
  case 0
  then have "find (\<lambda>a. acc_accountNumber a = generateAccountNumber (rnd i)) accts = None"
    by (simp add: find_collides)
  then show ?case by (subst unique_loop.simps) simp
next
  case (Suc k)
  have c: "collides accts (rnd i)" using Suc.prems(2) by force
  have "unique_loop accts rnd (Suc i) = Some (generateAccountNumber (rnd (Suc i + k)))"
  proof (rule Suc.IH)
    show "\<not> collides accts (rnd (Suc i + k))" using Suc.prems(1) by simp
    show "\<forall>j<k. collides accts (rnd (Suc i + j))"
    proof (intro allI impI)
      fix j assume "j < k"
      then have "collides accts (rnd (i + Suc j))" using Suc.prems(2) by blast
      then show "collides accts (rnd (Suc i + j))" by simp
    qed
  qed
  moreover have "find (\<lambda>a. acc_accountNumber a = generateAccountNumber (rnd i)) accts \<noteq> None"
    using c by (simp add: find_collides)
  ultimately show ?case by (subst unique_loop.simps) (auto split: option.split)
qed

lemma unique_loop_Some_free:
  assumes "unique_loop accts rnd i = Some y"
  shows "\<exists>j \<ge> i. \<not> collides accts (rnd j) \<and> y = generateAccountNumber (rnd j)"
proof (rule unique_loop.raw_induct
    [where P = "\<lambda>accts rnd i y. \<exists>j \<ge> i. \<not> collides accts (rnd j) \<and> y = generateAccountNumber (rnd j)",
     OF _ assms])
  fix f :: "account list \<Rightarrow> (nat \<Rightarrow> nat) \<Rightarrow> nat \<Rightarrow> string option"
  fix accts rnd i y
  assume IH: "\<And>accts rnd i y. f accts rnd i = Some y \<Longrightarrow>
      \<exists>j \<ge> i. \<not> collides accts (rnd j) \<and> y = generateAccountNumber (rnd j)"
  assume step: "(case find (\<lambda>a. acc_accountNumber a = generateAccountNumber (rnd i)) accts of
      None \<Rightarrow> Some (generateAccountNumber (rnd i))
    | Some existing \<Rightarrow> f accts rnd (Suc i)) = Some y"
  show "\<exists>j \<ge> i. \<not> collides accts (rnd j) \<and> y = generateAccountNumber (rnd j)"
  proof (cases "find (\<lambda>a. acc_accountNumber a = generateAccountNumber (rnd i)) accts")
    case None
    then have "\<not> collides accts (rnd i)" by (simp add: find_collides)
    moreover have "y = generateAccountNumber (rnd i)" using step None by simp
    ultimately show ?thesis by blast
  next
    case (Some existing)
    then have "f accts rnd (Suc i) = Some y" using step by simp
    then obtain j where "j \<ge> Suc i" "\<not> collides accts (rnd j)" "y = generateAccountNumber (rnd j)"
      using IH by blast
    then have "i \<le> j \<and> \<not> collides accts (rnd j) \<and> y = generateAccountNumber (rnd j)" by simp
    then show ?thesis by blast
  qed
qed

lemma unique_loop_all_collide:
  assumes "\<forall>j. collides accts (rnd j)"
  shows "unique_loop accts rnd i = None"
proof (cases "unique_loop accts rnd i")
  case None
  then show ?thesis .
next
  case (Some y)
  then show ?thesis using unique_loop_Some_free assms by blast
qed

lemma find_owner_type:
  "(find (\<lambda>a. acc_userId a = u \<and> acc_accountType a = ty) accts = None) =
   (\<not> (\<exists>a \<in> set accts. acc_userId a = u \<and> acc_accountType a = ty))"
  by (auto simp: find_None_iff)

lemma generateAccountNumber_least: "generateAccountNumber 1000000000 = ''1000000000''"
  unfolding generateAccountNumber_def by (simp add: string_of_nat.simps)

lemma generateAccountNumber_next: "generateAccountNumber 1000000001 = ''1000000001''"
  unfolding generateAccountNumber_def by (simp add: string_of_nat.simps)

lemma collides_taken: "collides (accounts db_taken) r = (generateAccountNumber r = ''1000000000'')"
  by (auto simp: collides_def db_taken_def account_taken_def)

text \<open>
  Claim C6, as the code has it. The loop of \<open>createAccount\<close> has no retry bound and no
  error for an exhausted identifier space: for a caller without an account of the
  requested type, it returns with the first draw that no stored account holds, after
  any number \<open>k\<close> of colliding draws, and it does not return at all when every draw
  collides.
\<close>

theorem createAccount_unbounded_loop:
  assumes "\<not> (\<exists>a \<in> set (accounts d). acc_userId a = u \<and> acc_accountType a = accountType_text t)"
  shows "(\<forall>k. \<not> collides (accounts d) (rnd k) \<and> (\<forall>j < k. collides (accounts d) (rnd j)) \<longrightarrow>
            createAccount now rnd d u t =
              Some (insert_account now d u (generateAccountNumber (rnd k)) (accountType_text t))) \<and>
         ((\<forall>j. collides (accounts d) (rnd j)) \<longrightarrow> createAccount now rnd d u t = None)"
proof -
  have f: "find (\<lambda>a. acc_userId a = u \<and> acc_accountType a = accountType_text t) (accounts d) = None"
    using assms by (simp only: find_owner_type not_False_eq_True)
  show ?thesis
  proof (intro conjI allI impI)
    fix k
    assume "\<not> collides (accounts d) (rnd k) \<and> (\<forall>j < k. collides (accounts d) (rnd j))"
    then have "unique_loop (accounts d) rnd 0 = Some (generateAccountNumber (rnd (0 + k)))"
      by (intro unique_loop_first_free) simp_all
    then show "createAccount now rnd d u t =
        Some (insert_account now d u (generateAccountNumber (rnd k)) (accountType_text t))"
      using f by (simp add: createAccount_def)
  next
    assume "\<forall>j. collides (accounts d) (rnd j)"
    then have "unique_loop (accounts d) rnd 0 = None" by (rule unique_loop_all_collide)
    then show "createAccount now rnd d u t = None"
      using f by (simp add: createAccount_def)
  qed
qed

theorem createAccount_unbounded_loop_witness:
  "\<not> (\<exists>a \<in> set (accounts db_taken). acc_userId a = 2 \<and> acc_accountType a = accountType_text Checking) \<and>
   \<not> collides (accounts db_taken) (rnd_retry 1) \<and>
   collides (accounts db_taken) (rnd_retry 0) \<and>
   createAccount ''2023-01-01 10:00:00'' rnd_retry db_taken 2 Checking =
     Some (insert_account ''2023-01-01 10:00:00'' db_taken 2 ''1000000001'' ''checking'') \<and>
   (\<forall>j. collides (accounts db_taken) (rnd_constant j)) \<and>
   createAccount ''2023-01-01 10:00:00'' rnd_constant db_taken 2 Checking = None"
proof -
  have h: "\<not> (\<exists>a \<in> set (accounts db_taken).
      acc_userId a = 2 \<and> acc_accountType a = accountType_text Checking)"
    by (simp add: db_taken_def account_taken_def)
  have c0: "\<forall>j < 1. collides (accounts db_taken) (rnd_retry j)"
    by (simp add: collides_taken rnd_retry_def generateAccountNumber_least)
  have c1: "\<not> collides (accounts db_taken) (rnd_retry 1)"
    by (simp add: collides_taken rnd_retry_def generateAccountNumber_next)
  have all: "\<forall>j. collides (accounts db_taken) (rnd_constant j)"
    by (simp add: collides_taken rnd_constant_def generateAccountNumber_least)
  have g: "generateAccountNumber (rnd_retry 1) = ''1000000001''"
    by (simp add: rnd_retry_def generateAccountNumber_next)
  have t: "accountType_text Checking = ''checking''" by simp
  note th1 = createAccount_unbounded_loop [OF h, of rnd_retry "''2023-01-01 10:00:00''"]
  note th2 = createAccount_unbounded_loop [OF h, of rnd_constant "''2023-01-01 10:00:00''"]
  have r1: "createAccount ''2023-01-01 10:00:00'' rnd_retry db_taken 2 Checking =
      Some (insert_account ''2023-01-01 10:00:00'' db_taken 2 ''1000000001'' ''checking'')"
    using th1 c0 c1 unfolding g [symmetric] t by blast
  have r2: "createAccount ''2023-01-01 10:00:00'' rnd_constant db_taken 2 Checking = None"
    using th2 all by blast
  have c0': "collides (accounts db_taken) (rnd_retry 0)" using c0 by simp
  show ?thesis using h c0' c1 all r1 r2 by blast
qed

text \<open>
  Claim C6 as stated fails: on a database holding account number 1000000000 and a random
  source that returns 1000000000 at every draw, \<open>createAccount\<close> neither returns an
  account nor fails with an error.
\<close>

theorem createAccount_loops_forever:
  "createAccount ''2023-01-01 10:00:00'' rnd_constant db_taken 2 Checking = None"
proof -
  have "\<forall>j. collides (accounts db_taken) (rnd_constant j)"
    by (simp add: collides_taken rnd_constant_def generateAccountNumber_least)
  moreover have "find (\<lambda>a. acc_userId a = 2 \<and> acc_accountType a = accountType_text Checking)
      (accounts db_taken) = None"
    by (simp add: db_taken_def account_taken_def)
  ultimately show ?thesis
    using unique_loop_all_collide [of "accounts db_taken" rnd_constant 0]
    by (simp add: createAccount_def)
qed

section \<open>One account of each type\<close>

lemma insert_account_cases:
  assumes "insert_account now d u n ty = (r, d')"
  shows "(\<exists>msg. r = Inl (SqliteError msg) \<and> d' = d) \<or>
         (\<exists>a. r = Inr a \<and> acc_userId a = u \<and> acc_accountType a = ty \<and>
              acc_accountNumber a = n \<and>
              acc_balance a = Fin 0 \<and> acc_status a = Some ''active'' \<and>
              acc_id a = next_rowid (accounts_seq d) (map acc_id (accounts d)) \<and>
              d' = d\<lparr>accounts := accounts d @ [a], accounts_seq := acc_id a\<rparr>)"
  using assms by (auto simp: insert_account_def Let_def split: if_splits)

lemma createAccount_cases:
  assumes "createAccount now rnd d u t = Some (r, d')"
  shows "((\<exists>a \<in> set (accounts d). acc_userId a = u \<and> acc_accountType a = accountType_text t) \<and>
          r = Inl (Conflict t) \<and> d' = d) \<or>
         (\<not> (\<exists>a \<in> set (accounts d). acc_userId a = u \<and> acc_accountType a = accountType_text t) \<and>
          (\<exists>n. insert_account now d u n (accountType_text t) = (r, d')))"
proof (cases "find (\<lambda>a. acc_userId a = u \<and> acc_accountType a = accountType_text t) (accounts d)")
  case None
  then have ne: "\<not> (\<exists>a \<in> set (accounts d). acc_userId a = u \<and> acc_accountType a = accountType_text t)"
    using find_owner_type [of u "accountType_text t" "accounts d"] by simp
  obtain n where "unique_loop (accounts d) rnd 0 = Some n"
    using assms None by (cases "unique_loop (accounts d) rnd 0") (simp_all add: createAccount_def)
  then have "insert_account now d u n (accountType_text t) = (r, d')"
    using assms None by (simp add: createAccount_def)
  then show ?thesis using ne by blast
next
  case (Some existing)
  then have "\<exists>a \<in> set (accounts d). acc_userId a = u \<and> acc_accountType a = accountType_text t"
    using find_owner_type [of u "accountType_text t" "accounts d"] by simp
  moreover have "r = Inl (Conflict t) \<and> d' = d"
    using assms Some by (simp add: createAccount_def Conflict_def)
  ultimately show ?thesis by blast
qed






section \<open>The order of the transaction history\<close>

lemma desc_sorted_rev:
  "sorted_wrt (\<lambda>t t'. column t' \<le> column t) xs = sorted (map column (rev xs))"
  by (simp add: sorted_map sorted_wrt_rev)

lemma sort_key_asc: "sorted_wrt (\<lambda>t t'. column t \<le> column t') (sort_key column rows)"
  using sorted_sort_key [of column rows] unfolding sorted_map .

lemma sort_key_desc: "sorted_wrt (\<lambda>t t'. column t' \<le> column t) (rev (sort_key column rows))"
  unfolding sorted_wrt_rev by (rule sort_key_asc)

lemma stable_order_by_sql: "sql_order_by stable_order_by"
  unfolding sql_order_by_def
proof (intro allI conjI)
  fix column :: "transaction \<Rightarrow> string option" and dir rows
  show "mset (stable_order_by column dir rows) = mset rows"
    by (cases dir) (simp_all add: stable_order_by_def)
  show "sorted_wrt (\<lambda>t t'. in_order dir (column t) (column t')) (stable_order_by column dir rows)"
  proof (cases dir)
    case Asc
    then show ?thesis using sort_key_asc [of column rows] by (simp add: stable_order_by_def)
  next
    case Desc
    then show ?thesis
      using sort_key_desc [of column "rev rows"] by (simp add: stable_order_by_def)
  qed
qed

lemma reversing_order_by_sql: "sql_order_by reversing_order_by"
  unfolding sql_order_by_def
proof (intro allI conjI)
  fix column :: "transaction \<Rightarrow> string option" and dir rows
  show "mset (reversing_order_by column dir rows) = mset rows"
    by (cases dir) (simp_all add: reversing_order_by_def)
  show "sorted_wrt (\<lambda>t t'. in_order dir (column t) (column t'))
          (reversing_order_by column dir rows)"
  proof (cases dir)
    case Asc
    then show ?thesis
      using sort_key_asc [of column "rev rows"] by (simp add: reversing_order_by_def)
  next
    case Desc
    then show ?thesis
      using sort_key_desc [of column rows] by (simp add: reversing_order_by_def)
  qed
qed

lemma desc_order_unique:
  assumes m: "mset xs = mset ys"
    and sx: "sorted_wrt (\<lambda>t t'. tx_createdAt t' \<le> tx_createdAt t) xs"
    and sy: "sorted_wrt (\<lambda>t t'. tx_createdAt t' \<le> tx_createdAt t) ys"
    and dx: "distinct (map tx_createdAt xs)"
  shows "xs = ys"
proof -
  have "mset (map tx_createdAt xs) = mset (map tx_createdAt ys)" using m by (metis mset_map)
  then have dy: "distinct (map tx_createdAt ys)" using dx by (metis mset_eq_imp_distinct_iff)
  have st: "set xs = set ys" using m by (rule mset_eq_setD)
  have inj: "inj_on tx_createdAt (set (rev xs) \<union> set (rev ys))"
    using dx st by (simp add: distinct_map)
  have "rev xs = rev ys"
  proof (rule map_sorted_distinct_set_unique [OF inj])
    show "sorted (map tx_createdAt (rev xs))" using sx by (simp only: desc_sorted_rev)
    show "sorted (map tx_createdAt (rev ys))" using sy by (simp only: desc_sorted_rev)
    show "distinct (map tx_createdAt (rev xs))"
      using dx by (simp only: rev_map [symmetric] distinct_rev)
    show "distinct (map tx_createdAt (rev ys))"
      using dy by (simp only: rev_map [symmetric] distinct_rev)
    show "set (rev xs) = set (rev ys)" using st by simp
  qed
  then show ?thesis by simp
qed

lemma tx_sort_keys:
  "tx_createdAt tx_sort_3 < tx_createdAt tx_sort_1" "tx_createdAt tx_sort_1 < tx_createdAt tx_sort_2"
  by (simp_all add: tx_sort_1_def tx_sort_2_def tx_sort_3_def)

lemma select_account_db_sorting: "select_account db_sorting 1 1 = Some account_test"
  by (simp add: select_account_def db_sorting_def account_test_def)

lemma tx_tie_keys: "tx_createdAt tx_tie_1 = tx_createdAt tx_tie_2" "tx_id tx_tie_1 < tx_id tx_tie_2"
  by (simp_all add: tx_tie_1_def tx_tie_2_def)

lemma db_tie_by_funding:
  "snd (fundAccount env_test (snd (fundAccount env_test db_test 1 1 (f64_lit 50 1) fs_bank))
          1 1 (f64_lit 50 1) fs_bank) = db_tie"
proof -
  have s1: "f64_add (f64_lit 100 1) (f64_lit 50 1) = Some (f64_lit 150 1)"
    using f64_add_int [of 100 50] by simp
  have s2: "f64_add (f64_lit 150 1) (f64_lit 50 1) = Some (f64_lit 200 1)"
    using f64_add_int [of 150 50] by simp
  show ?thesis
    by (simp add: fundAccount_def fund_transaction_def insert_transaction_def select_account_def
        db_test_def account_test_def env_test_def fs_bank_def db_tie_def tx_tie_1_def
        tx_tie_2_def next_rowid_def s1 s2 Let_def)
qed

text \<open>
  Claim C5, as the code has it. For the owner of an account, \<open>getTransactions\<close> asks the
  database for the transactions of the account ordered by \<^verbatim>\<open>createdAt\<close>, descending,
  and returns them in that order, each with the account's type: for every ORDER BY that
  SQL allows, the result holds exactly the account's transactions and is in descending
  order of \<^verbatim>\<open>createdAt\<close>. When the \<^verbatim>\<open>createdAt\<close> values are pairwise different the
  sequence is determined: it is the reverse of the ascending sort, and three transactions
  created at \<open>T1 < T2 < T3\<close> come back as \<open>[T3, T2, T1]\<close>. Nothing is said about
  transactions of equal \<^verbatim>\<open>createdAt\<close>.
\<close>

theorem getTransactions_order:
  assumes ord: "sql_order_by orderBy"
    and sel: "select_account d accountId u = Some acc"
  shows "\<exists>txs.
      getTransactions orderBy d u accountId = Inr (map (\<lambda>t. (t, acc_accountType acc)) txs) \<and>
      mset txs = mset (filter (\<lambda>t. tx_accountId t = accountId) (transactions d)) \<and>
      sorted_wrt (\<lambda>t t'. tx_createdAt t' \<le> tx_createdAt t) txs \<and>
      (distinct (map tx_createdAt txs) \<longrightarrow>
         txs = rev (sort_key tx_createdAt
                      (filter (\<lambda>t. tx_accountId t = accountId) (transactions d)))) \<and>
      (\<forall>t1 t2 t3. mset txs = {#t1, t2, t3#} \<and> tx_createdAt t1 < tx_createdAt t2 \<and>
         tx_createdAt t2 < tx_createdAt t3 \<longrightarrow> txs = [t3, t2, t1])"
proof -
  define rows where "rows = filter (\<lambda>t. tx_accountId t = accountId) (transactions d)"
  define txs where "txs = orderBy tx_createdAt Desc rows"
  have g: "getTransactions orderBy d u accountId = Inr (map (\<lambda>t. (t, acc_accountType acc)) txs)"
    using sel by (simp add: getTransactions_def txs_def rows_def)
  have m: "mset txs = mset rows"
    using ord by (simp add: sql_order_by_def txs_def)
  have "sorted_wrt (\<lambda>t t'. in_order Desc (tx_createdAt t) (tx_createdAt t')) txs"
    using ord unfolding sql_order_by_def txs_def by blast
  then have so: "sorted_wrt (\<lambda>t t'. tx_createdAt t' \<le> tx_createdAt t) txs" by simp
  have det: "txs = rev (sort_key tx_createdAt rows)" if "distinct (map tx_createdAt txs)"
  proof (rule desc_order_unique [OF _ so _ that])
    show "mset txs = mset (rev (sort_key tx_createdAt rows))" using m by simp
    show "sorted_wrt (\<lambda>t t'. tx_createdAt t' \<le> tx_createdAt t) (rev (sort_key tx_createdAt rows))"
      by (rule sort_key_desc)
  qed
  have three: "txs = [t3, t2, t1]"
    if "mset txs = {#t1, t2, t3#} \<and> tx_createdAt t1 < tx_createdAt t2 \<and>
        tx_createdAt t2 < tx_createdAt t3" for t1 t2 t3
  proof -
    have "[t3, t2, t1] = txs"
    proof (rule desc_order_unique)
      show "mset [t3, t2, t1] = mset txs" using that by (simp add: add_mset_commute)
      show "sorted_wrt (\<lambda>t t'. tx_createdAt t' \<le> tx_createdAt t) [t3, t2, t1]"
        using that by auto
      show "sorted_wrt (\<lambda>t t'. tx_createdAt t' \<le> tx_createdAt t) txs" by (rule so)
      show "distinct (map tx_createdAt [t3, t2, t1])" using that by auto
    qed
    then show ?thesis by simp
  qed
  show ?thesis
  proof (intro exI [of _ txs] conjI impI allI)
    show "getTransactions orderBy d u accountId = Inr (map (\<lambda>t. (t, acc_accountType acc)) txs)"
      by (rule g)
    show "mset txs = mset (filter (\<lambda>t. tx_accountId t = accountId) (transactions d))"
      using m by (simp only: rows_def)
    show "sorted_wrt (\<lambda>t t'. tx_createdAt t' \<le> tx_createdAt t) txs" by (rule so)
    show "txs = rev (sort_key tx_createdAt
                       (filter (\<lambda>t. tx_accountId t = accountId) (transactions d)))"
      if "distinct (map tx_createdAt txs)"
      using det [OF that] by (simp only: rows_def)
    show "txs = [t3, t2, t1]"
      if "mset txs = {#t1, t2, t3#} \<and> tx_createdAt t1 < tx_createdAt t2 \<and>
          tx_createdAt t2 < tx_createdAt t3" for t1 t2 t3
      using that by (rule three)
  qed
qed

theorem getTransactions_order_witness:
  "sql_order_by stable_order_by \<and> select_account db_sorting 1 1 = Some account_test \<and>
   getTransactions stable_order_by db_sorting 1 1 =
     Inr [(tx_sort_2, ''checking''), (tx_sort_1, ''checking''), (tx_sort_3, ''checking'')]"
proof -
  obtain txs where
    g: "getTransactions stable_order_by db_sorting 1 1 =
          Inr (map (\<lambda>t. (t, acc_accountType account_test)) txs)"
    and m: "mset txs = mset (filter (\<lambda>t. tx_accountId t = 1) (transactions db_sorting))"
    and three: "\<forall>t1 t2 t3. mset txs = {#t1, t2, t3#} \<and> tx_createdAt t1 < tx_createdAt t2 \<and>
         tx_createdAt t2 < tx_createdAt t3 \<longrightarrow> txs = [t3, t2, t1]"
    using getTransactions_order [OF stable_order_by_sql select_account_db_sorting] by blast
  have "mset txs = {#tx_sort_3, tx_sort_1, tx_sort_2#}"
    unfolding m by (simp add: db_sorting_def tx_sort_1_def tx_sort_2_def tx_sort_3_def)
  then have "txs = [tx_sort_2, tx_sort_1, tx_sort_3]"
    using three tx_sort_keys by blast
  then show ?thesis
    using g stable_order_by_sql select_account_db_sorting by (simp add: account_test_def)
qed

text \<open>
  Claim C5 as stated fails. Two \<open>fundAccount\<close> calls within one second store two
  transactions of equal \<^verbatim>\<open>createdAt\<close>. A stable sort and a sort that reverses rows of
  equal key are both what SQL allows for ORDER BY \<^verbatim>\<open>created_at\<close> DESC; with the first
  the handler returns the transaction inserted earlier first, with the second the one
  inserted later: the handler does not fix the order of ties.
\<close>

theorem getTransactions_tie_order:
  "sql_order_by stable_order_by \<and> sql_order_by reversing_order_by \<and>
   snd (fundAccount env_test (snd (fundAccount env_test db_test 1 1 (f64_lit 50 1) fs_bank))
          1 1 (f64_lit 50 1) fs_bank) = db_tie \<and>
   transactions db_tie = [tx_tie_1, tx_tie_2] \<and>
   tx_createdAt tx_tie_1 = tx_createdAt tx_tie_2 \<and> tx_id tx_tie_1 < tx_id tx_tie_2 \<and>
   getTransactions stable_order_by db_tie 1 1 =
     Inr [(tx_tie_1, ''checking''), (tx_tie_2, ''checking'')] \<and>
   getTransactions reversing_order_by db_tie 1 1 =
     Inr [(tx_tie_2, ''checking''), (tx_tie_1, ''checking'')]"
proof -
  have sel: "select_account db_tie 1 1 = Some (account_test\<lparr>acc_balance := f64_lit 200 1\<rparr>)"
    by (simp add: select_account_def db_tie_def account_test_def)
  have rows: "filter (\<lambda>t. tx_accountId t = 1) (transactions db_tie) = [tx_tie_1, tx_tie_2]"
    by (simp add: db_tie_def tx_tie_1_def tx_tie_2_def)
  have st: "stable_order_by tx_createdAt Desc [tx_tie_1, tx_tie_2] = [tx_tie_1, tx_tie_2]"
    by (simp add: stable_order_by_def tx_tie_keys)
  have rv: "reversing_order_by tx_createdAt Desc [tx_tie_1, tx_tie_2] = [tx_tie_2, tx_tie_1]"
    by (simp add: reversing_order_by_def tx_tie_keys)
  have ty: "acc_accountType account_test = ''checking''" by (simp add: account_test_def)
  show ?thesis
    using stable_order_by_sql reversing_order_by_sql db_tie_by_funding tx_tie_keys
    by (simp add: getTransactions_def sel rows st rv ty) (simp add: db_tie_def)
qed

section \<open>Ledger consistency\<close>

lemma fold_max_ge: "s \<le> fold max ids (s :: int) \<and> (\<forall>x \<in> set ids. x \<le> fold max ids s)"
proof (induction ids arbitrary: s)
  case Nil
  then show ?case by simp
next
  case (Cons i ids)
  have "max i s \<le> fold max ids (max i s)" "\<forall>x \<in> set ids. x \<le> fold max ids (max i s)"
    using Cons.IH [of "max i s"] by simp_all
  then show ?case by auto
qed

lemma next_rowid_fresh: "next_rowid seq ids \<notin> set ids"
proof
  assume "next_rowid seq ids \<in> set ids"
  then have "next_rowid seq ids \<le> fold max ids seq" using fold_max_ge by blast
  then show False by (simp add: next_rowid_def)
qed

lemma update_balance_None:
  assumes "a \<in> set xs" "acc_id a = accountId" "f64_add (acc_balance a) x = None"
  shows "update_balance xs accountId x = None"
  using assms by (induction xs) (auto split: option.splits)

lemma fundAccount_cases:
  assumes pk: "distinct (map acc_id (accounts d))"
    and f: "fundAccount e d u accountId x fs = (r, d')"
  shows "d' = d \<or>
     (\<exists>a nb tx. a \<in> set (accounts d) \<and> acc_id a = accountId \<and>
        f64_add (acc_balance a) x = Some nb \<and>
        tx_accountId tx = accountId \<and> tx_type tx = ''deposit'' \<and> tx_amount tx = x \<and>
        tx_status tx = ''completed'' \<and>
        d' = d\<lparr>transactions := transactions d @ [tx], transactions_seq := tx_id tx,
               accounts := map (\<lambda>c. if c = a then a\<lparr>acc_balance := nb\<rparr> else c) (accounts d)\<rparr>)"
proof (cases "select_account d accountId u")
  case None
  then show ?thesis using f by (simp add: fundAccount_def)
next
  case (Some a)
  then have a: "a \<in> set (accounts d)" "acc_id a = accountId" "acc_userId a = u"
    using select_account_Some by blast+
  show ?thesis
  proof (cases "acc_status a = Some ''active''")
    case False
    then show ?thesis using f Some by (simp add: fundAccount_def)
  next
    case True
    show ?thesis
    proof (cases "f64_add (acc_balance a) x")
      case None
      then have "update_balance (accounts d) accountId x = None"
        using a by (intro update_balance_None)
      then show ?thesis
        using f Some True
        by (simp add: fundAccount_def fund_transaction_def insert_transaction_def Let_def)
    next
      case (Some nb)
      obtain tx where
        "fundAccount e d u (acc_id a) x fs =
          (Inr \<lparr>res_transaction = tx, res_newBalance = nb\<rparr>,
           d\<lparr>transactions := transactions d @ [tx], transactions_seq := tx_id tx,
             accounts := map (\<lambda>c. if c = a then a\<lparr>acc_balance := nb\<rparr> else c) (accounts d)\<rparr>)"
        "tx_accountId tx = acc_id a" "tx_type tx = ''deposit''" "tx_amount tx = x"
        "tx_status tx = ''completed''"
        using fundAccount_success [OF pk a(1,3) True Some, of e fs] by blast
      then show ?thesis using f a Some by auto
    qed
  qed
qed

lemma completed_amounts_snoc:
  assumes "transactions d' = transactions d @ [tx]"
  shows "completed_amounts d' i k =
     completed_amounts d i k @
       (if tx_accountId tx = i \<and> tx_type tx = k \<and> tx_status tx = ''completed''
        then [tx_amount tx] else [])"
  using assms by (simp add: completed_amounts_def)

lemma completed_amounts_same:
  assumes "transactions d' = transactions d"
  shows "completed_amounts d' i k = completed_amounts d i k"
  using assms by (simp add: completed_amounts_def)

lemma ledger_invariant_empty: "ledger_invariant empty_db"
  by (simp add: ledger_invariant_def empty_db_def)

lemma ledger_invariant_fundAccount:
  assumes inv: "ledger_invariant d"
    and f: "fundAccount e d u accountId x fs = (r, d')"
  shows "ledger_invariant d'"
proof -
  have pk: "distinct (map acc_id (accounts d))"
    and tr: "\<forall>t \<in> set (transactions d).
         tx_accountId t \<in> acc_id ` set (accounts d) \<and> tx_type t = ''deposit''"
    and bal: "\<forall>a \<in> set (accounts d). is_f64 (acc_balance a) \<and>
         f64_sum (completed_amounts d (acc_id a) ''deposit'') = Some (acc_balance a)"
    using inv by (simp_all add: ledger_invariant_def)
  show ?thesis
    using fundAccount_cases [OF pk f]
  proof (elim disjE exE conjE)
    assume "d' = d"
    then show ?thesis using inv by simp
  next
    fix a nb tx
    assume a: "a \<in> set (accounts d)" "acc_id a = accountId"
      and nb: "f64_add (acc_balance a) x = Some nb"
      and tx: "tx_accountId tx = accountId" "tx_type tx = ''deposit''" "tx_amount tx = x"
        "tx_status tx = ''completed''"
      and d': "d' = d\<lparr>transactions := transactions d @ [tx], transactions_seq := tx_id tx,
               accounts := map (\<lambda>c. if c = a then a\<lparr>acc_balance := nb\<rparr> else c) (accounts d)\<rparr>"
    define a' where "a' = a\<lparr>acc_balance := nb\<rparr>"
    have acc': "accounts d' = map (\<lambda>c. if c = a then a' else c) (accounts d)"
      and trs': "transactions d' = transactions d @ [tx]"
      by (simp_all add: d' a'_def)
    have id': "acc_id a' = acc_id a" by (simp add: a'_def)
    have ids: "map acc_id (accounts d') = map acc_id (accounts d)"
      unfolding acc' using id' by (rule map_acc_id_update)
    have p1: "distinct (map acc_id (accounts d'))" using pk ids by simp
    have p2: "\<forall>t \<in> set (transactions d').
         tx_accountId t \<in> acc_id ` set (accounts d') \<and> tx_type t = ''deposit''"
    proof -
      have s: "acc_id ` set (accounts d') = acc_id ` set (accounts d)"
        using ids by (metis set_map)
      have "tx_accountId tx \<in> acc_id ` set (accounts d)"
        using a tx(1) by (metis imageI)
      then show ?thesis unfolding s trs' using tr tx(2) by simp
    qed
    have p3: "is_f64 (acc_balance c') \<and>
         f64_sum (completed_amounts d' (acc_id c') ''deposit'') = Some (acc_balance c')"
      if c': "c' \<in> set (accounts d')" for c'
    proof -
      obtain c where c: "c \<in> set (accounts d)" "c' = (if c = a then a' else c)"
        using c' unfolding acc' by auto
      show ?thesis
      proof (cases "c = a")
        case True
        then have e: "c' = a'" using c(2) by simp
        have "f64_sum (completed_amounts d (acc_id a) ''deposit'') = Some (acc_balance a)"
          using bal a(1) by blast
        then have "f64_sum (completed_amounts d' (acc_id a) ''deposit'') = Some nb"
          using tx a(2) nb by (simp add: completed_amounts_snoc [OF trs'] f64_sum_snoc)
        moreover have "is_f64 nb" using nb by (rule f64_add_is_f64)
        ultimately show ?thesis by (simp add: e a'_def)
      next
        case False
        then have e: "c' = c" using c(2) by simp
        have "acc_id c \<noteq> acc_id a" using primary_key_unique [OF pk a(1) c(1)] False by blast
        then have "completed_amounts d' (acc_id c) ''deposit'' =
            completed_amounts d (acc_id c) ''deposit''"
          using tx a(2) by (simp add: completed_amounts_snoc [OF trs'])
        then show ?thesis using bal c(1) by (simp add: e)
      qed
    qed
    show ?thesis unfolding ledger_invariant_def using p1 p2 p3 by blast
  qed
qed

lemma ledger_invariant_createAccount_new:
  assumes inv: "ledger_invariant d"
    and c: "createAccount now rnd d u t = Some (Inr a, d')"
  shows "acc_id a \<notin> acc_id ` set (accounts d) \<and> acc_balance a = Fin 0 \<and>
         accounts d' = accounts d @ [a] \<and> transactions d' = transactions d"
proof -
  obtain n where "insert_account now d u n (accountType_text t) = (Inr a, d')"
    using createAccount_cases [OF c] by (auto simp: Conflict_def)
  then have "acc_balance a = Fin 0"
    "acc_id a = next_rowid (accounts_seq d) (map acc_id (accounts d))"
    "d' = d\<lparr>accounts := accounts d @ [a], accounts_seq := acc_id a\<rparr>"
    using insert_account_cases by fastforce+
  moreover have "next_rowid (accounts_seq d) (map acc_id (accounts d)) \<notin>
      set (map acc_id (accounts d))"
    by (rule next_rowid_fresh)
  ultimately show ?thesis by simp
qed

lemma ledger_invariant_createAccount:
  assumes inv: "ledger_invariant d"
    and c: "createAccount now rnd d u t = Some (r, d')"
  shows "ledger_invariant d'"
proof (cases "d' = d")
  case True
  then show ?thesis using inv by simp
next
  case False
  then obtain n where ins: "insert_account now d u n (accountType_text t) = (r, d')"
    using createAccount_cases [OF c] by blast
  then obtain a where "r = Inr a"
    using insert_account_cases [OF ins] False by blast
  then have new: "acc_id a \<notin> acc_id ` set (accounts d)" "acc_balance a = Fin 0"
    "accounts d' = accounts d @ [a]" "transactions d' = transactions d"
    using ledger_invariant_createAccount_new [OF inv] c by blast+
  have pk: "distinct (map acc_id (accounts d))"
    and tr: "\<forall>t \<in> set (transactions d).
         tx_accountId t \<in> acc_id ` set (accounts d) \<and> tx_type t = ''deposit''"
    and bal: "\<forall>a \<in> set (accounts d). is_f64 (acc_balance a) \<and>
         f64_sum (completed_amounts d (acc_id a) ''deposit'') = Some (acc_balance a)"
    using inv by (simp_all add: ledger_invariant_def)
  have p1: "distinct (map acc_id (accounts d'))" using pk new(1,3) by simp
  have p2: "\<forall>t \<in> set (transactions d').
         tx_accountId t \<in> acc_id ` set (accounts d') \<and> tx_type t = ''deposit''"
    using tr new(3,4) by auto
  have "\<forall>t \<in> set (transactions d). tx_accountId t \<noteq> acc_id a"
    using tr new(1) by metis
  then have none: "completed_amounts d' (acc_id a) ''deposit'' = []"
    using new(4) by (simp add: completed_amounts_def filter_empty_conv)
  have p3: "is_f64 (acc_balance c) \<and>
         f64_sum (completed_amounts d' (acc_id c) ''deposit'') = Some (acc_balance c)"
    if "c \<in> set (accounts d')" for c
  proof (cases "c = a")
    case True
    then show ?thesis using none new(2) is_f64_zero by (simp add: f64_sum_Nil)
  next
    case False
    then have "c \<in> set (accounts d)" using that new(3) by simp
    then show ?thesis using bal by (simp add: completed_amounts_same [OF new(4)])
  qed
  show ?thesis unfolding ledger_invariant_def using p1 p2 p3 by blast
qed

lemma reachable_ledger_invariant: "reachable d \<Longrightarrow> ledger_invariant d"
proof (induction rule: reachable.induct)
  case reachable_empty
  show ?case by (rule ledger_invariant_empty)
next
  case (reachable_createAccount d now rnd userId accountType r d')
  then show ?case using ledger_invariant_createAccount by blast
next
  case (reachable_fundAccount d e userId accountId amount fundingSource r d')
  then show ?case using ledger_invariant_fundAccount by blast
qed

lemma ledger_invariant_consistent:
  assumes "ledger_invariant d"
  shows "ledger_consistent_rounded d"
  unfolding ledger_consistent_rounded_def
proof
  fix a assume a: "a \<in> set (accounts d)"
  have "completed_amounts d (acc_id a) ''withdrawal'' = []"
    using assms by (auto simp: ledger_invariant_def completed_amounts_def filter_empty_conv)
  moreover have "is_f64 (acc_balance a)"
    "f64_sum (completed_amounts d (acc_id a) ''deposit'') = Some (acc_balance a)"
    using assms a by (simp_all add: ledger_invariant_def)
  ultimately show "ledger_balance_rounded d (acc_id a) = Some (acc_balance a)"
    by (simp add: ledger_balance_rounded_def f64_sum_Nil f64_sub_zero)
qed

lemma createAccount_empty_db:
  "createAccount ''2023-01-01 09:00:00'' rnd_retry empty_db 1 Checking =
     Some (Inr account_new, db_created)"
proof -
  have "unique_loop [] rnd_retry 0 = Some (generateAccountNumber (rnd_retry 0))"
    by (subst unique_loop.simps) simp
  then show ?thesis
    by (simp add: createAccount_def empty_db_def insert_account_def next_rowid_def
        rnd_retry_def generateAccountNumber_least account_new_def db_created_def Let_def)
qed

lemma fundAccount_db_created:
  "fundAccount env_test db_created 1 1 (f64_lit 50 1) fs_bank =
     (Inr \<lparr>res_transaction = tx_tie_1, res_newBalance = f64_lit 50 1\<rparr>, db_ledger)"
  by (simp add: fundAccount_def fund_transaction_def insert_transaction_def select_account_def
      db_created_def account_new_def env_test_def fs_bank_def db_ledger_def tx_tie_1_def
      next_rowid_def f64_add_zero_50 Let_def)

lemma reachable_db_ledger: "reachable db_ledger"
  using reachable_fundAccount
    [OF reachable_createAccount [OF reachable_empty createAccount_empty_db] fundAccount_db_created]
  .

lemma reachable_fundAccount_snd:
  "reachable d \<Longrightarrow> reachable (snd (fundAccount e d u i x fs))"
  using reachable_fundAccount [of d e u i x fs "fst (fundAccount e d u i x fs)"
      "snd (fundAccount e d u i x fs)"] by simp

lemma reachable_db_created: "reachable db_created"
  using reachable_createAccount [OF reachable_empty createAccount_empty_db] .

lemma reachable_db_drift: "reachable db_drift"
  unfolding db_drift_def
  by (intro reachable_fundAccount_snd reachable_db_created)

lemma db_drift_facts:
  "accounts db_drift = [account_new\<lparr>acc_balance := Fin (5404319552844596 * 2 ^ 1021)\<rparr>]"
  "completed_amounts db_drift 1 ''deposit'' = [f64_lit 10 100, f64_lit 20 100, f64_lit 30 100]"
  "completed_amounts db_drift 1 ''withdrawal'' = []"
proof -
  define b2 where "b2 = Fin (5404319552844596 * 2 ^ 1020)"
  define b3 where "b3 = Fin (5404319552844596 * 2 ^ 1021)"
  have a2: "f64_add (f64_lit 10 100) (f64_lit 20 100) = Some b2"
    unfolding b2_def by (rule f64_add_010_020)
  have a3: "f64_add b2 (f64_lit 30 100) = Some b3"
    unfolding b2_def b3_def by (rule f64_add_030_030)
  have "accounts db_drift = [account_new\<lparr>acc_balance := b3\<rparr>]"
    by (simp add: db_drift_def fundAccount_def fund_transaction_def insert_transaction_def
        select_account_def db_created_def account_new_def f64_add_zero_010 a2 a3 Let_def)
  then show "accounts db_drift = [account_new\<lparr>acc_balance := Fin (5404319552844596 * 2 ^ 1021)\<rparr>]"
    unfolding b3_def .
  show "completed_amounts db_drift 1 ''deposit'' = [f64_lit 10 100, f64_lit 20 100, f64_lit 30 100]"
    by (simp add: db_drift_def fundAccount_def fund_transaction_def insert_transaction_def
        select_account_def db_created_def account_new_def f64_add_zero_010 a2 a3 Let_def
        completed_amounts_def)
  show "completed_amounts db_drift 1 ''withdrawal'' = []"
    by (simp add: db_drift_def fundAccount_def fund_transaction_def insert_transaction_def
        select_account_def db_created_def account_new_def f64_add_zero_010 a2 a3 Let_def
        completed_amounts_def)
qed

lemma exact_sum_drift:
  "exact_sum [f64_lit 10 100, f64_lit 20 100, f64_lit 30 100] = Some (43234556422756762 * 2 ^ 1018)"
  unfolding f64_lit_010 f64_lit_020 f64_lit_030 by simp

lemma f64_sum_drift:
  "f64_sum [f64_lit 10 100, f64_lit 20 100, f64_lit 30 100] =
     Some (Fin (5404319552844596 * 2 ^ 1021))"
proof -
  define b2 where "b2 = Fin (5404319552844596 * 2 ^ 1020)"
  have a2: "f64_add (f64_lit 10 100) (f64_lit 20 100) = Some b2"
    unfolding b2_def by (rule f64_add_010_020)
  have a3: "f64_add b2 (f64_lit 30 100) = Some (Fin (5404319552844596 * 2 ^ 1021))"
    unfolding b2_def by (rule f64_add_030_030)
  show ?thesis
    unfolding f64_sum_def f64_sum_from_def fold_simps option.case f64_add_zero_010 a2 a3 ..
qed

lemma f64_sum_drift_rev:
  "f64_sum [f64_lit 30 100, f64_lit 20 100, f64_lit 10 100] =
     Some (Fin (5404319552844595 * 2 ^ 1021))"
proof -
  define b2 where "b2 = Fin (2 ^ 1073)"
  have a2: "f64_add (f64_lit 30 100) (f64_lit 20 100) = Some b2"
    unfolding b2_def by (rule f64_add_030_020)
  have a3: "f64_add b2 (f64_lit 10 100) = Some (Fin (5404319552844595 * 2 ^ 1021))"
    unfolding b2_def by (rule f64_add_050_010)
  show ?thesis
    unfolding f64_sum_def f64_sum_from_def fold_simps option.case f64_add_zero_030 a2 a3 ..
qed

lemma db_ledger_facts:
  "account_new\<lparr>acc_balance := f64_lit 50 1\<rparr> \<in> set (accounts db_ledger)"
  "acc_id (account_new\<lparr>acc_balance := f64_lit 50 1\<rparr>) = 1"
  "completed_amounts db_ledger 1 ''deposit'' = map (\<lambda>n. Fin (n * 2 ^ 1074)) [50]"
  by (simp_all add: db_ledger_def account_new_def completed_amounts_def tx_tie_1_def f64_lit_int)

text \<open>
  Claim C7, as the code has it. In every database reachable from the empty one by calls
  of \<open>createAccount\<close> and \<open>fundAccount\<close>, the balance of every account is what the
  binary64 addition of the REAL column gives when the amounts of its completed deposits
  are added to 0 one after the other in insertion order, every partial sum rounded, minus
  the same for its completed withdrawals (of which there are none). It is the exact sum
  of the stored amounts when these are whole non-negative numbers of total below \<open>2^53\<close>.
  An account that \<open>createAccount\<close> has just created has balance 0 and no transaction.
\<close>

theorem ledger_consistency_rounded:
  assumes "reachable d"
  shows "ledger_consistent_rounded d \<and>
     (\<forall>a \<in> set (accounts d). \<forall>ns.
        completed_amounts d (acc_id a) ''deposit'' = map (\<lambda>n. Fin (n * 2 ^ 1074)) ns \<and>
        (\<forall>n \<in> set ns. 0 \<le> n) \<and> sum_list ns < 2 ^ 53 \<longrightarrow>
        acc_balance a = Fin (sum_list ns * 2 ^ 1074) \<and>
        f64_units (acc_balance a) = ledger_balance_exact d (acc_id a)) \<and>
     (\<forall>now rnd u t a d'. createAccount now rnd d u t = Some (Inr a, d') \<longrightarrow>
        acc_balance a = Fin 0 \<and>
        filter (\<lambda>t. tx_accountId t = acc_id a) (transactions d') = [])"
proof (intro conjI allI impI ballI)
  have inv: "ledger_invariant d" using assms by (rule reachable_ledger_invariant)
  show "ledger_consistent_rounded d" using inv by (rule ledger_invariant_consistent)
  {
    fix now rnd u t a d'
    assume c: "createAccount now rnd d u t = Some (Inr a, d')"
    have new: "acc_id a \<notin> acc_id ` set (accounts d)" "acc_balance a = Fin 0"
      "transactions d' = transactions d"
      using ledger_invariant_createAccount_new [OF inv c] by blast+
    show "acc_balance a = Fin 0" by (rule new(2))
    have "\<forall>t \<in> set (transactions d). tx_accountId t \<in> acc_id ` set (accounts d)"
      using inv by (simp add: ledger_invariant_def)
    then have "\<forall>t \<in> set (transactions d). tx_accountId t \<noteq> acc_id a"
      using new(1) by metis
    then show "filter (\<lambda>t. tx_accountId t = acc_id a) (transactions d') = []"
      using new(3) by (simp add: filter_empty_conv)
  }
  fix a ns
  assume a: "a \<in> set (accounts d)"
    and h: "completed_amounts d (acc_id a) ''deposit'' = map (\<lambda>n. Fin (n * 2 ^ 1074)) ns \<and>
        (\<forall>n \<in> set ns. 0 \<le> n) \<and> sum_list ns < 2 ^ 53"
  have "f64_sum (completed_amounts d (acc_id a) ''deposit'') = Some (acc_balance a)"
    using inv a by (simp add: ledger_invariant_def)
  moreover have "f64_sum (completed_amounts d (acc_id a) ''deposit'') =
      Some (Fin (sum_list ns * 2 ^ 1074))"
    using h f64_sum_whole [of ns] by simp
  ultimately show b: "acc_balance a = Fin (sum_list ns * 2 ^ 1074)" by simp
  have w: "completed_amounts d (acc_id a) ''withdrawal'' = []"
    using inv by (auto simp: ledger_invariant_def completed_amounts_def filter_empty_conv)
  have "exact_sum (completed_amounts d (acc_id a) ''deposit'') = Some (sum_list ns * 2 ^ 1074)"
    using h exact_sum_whole [of ns] by simp
  then show "f64_units (acc_balance a) = ledger_balance_exact d (acc_id a)"
    by (simp add: ledger_balance_exact_def w b)
qed

theorem ledger_consistency_rounded_witness:
  "reachable empty_db \<and> reachable db_ledger \<and> ledger_consistent_rounded db_ledger \<and>
   account_new\<lparr>acc_balance := f64_lit 50 1\<rparr> \<in> set (accounts db_ledger) \<and>
   completed_amounts db_ledger 1 ''deposit'' = map (\<lambda>n. Fin (n * 2 ^ 1074)) [50] \<and>
   (0::int) \<le> 50 \<and> sum_list [50::int] < 2 ^ 53 \<and>
   acc_balance (account_new\<lparr>acc_balance := f64_lit 50 1\<rparr>) = Fin (50 * 2 ^ 1074) \<and>
   ledger_balance_exact db_ledger 1 = Some (50 * 2 ^ 1074) \<and>
   ledger_balance_rounded db_ledger 1 = Some (Fin (50 * 2 ^ 1074)) \<and>
   createAccount ''2023-01-01 09:00:00'' rnd_retry empty_db 1 Checking =
     Some (Inr account_new, db_created) \<and>
   acc_balance account_new = Fin 0 \<and>
   filter (\<lambda>t. tx_accountId t = acc_id account_new) (transactions db_created) = []"
proof -
  define a where "a = account_new\<lparr>acc_balance := f64_lit 50 1\<rparr>"
  note m = db_ledger_facts(1) [folded a_def]
  note i = db_ledger_facts(2) [folded a_def]
  note th = ledger_consistency_rounded [OF reachable_db_ledger]
  have c: "ledger_consistent_rounded db_ledger" using th by blast
  have h: "completed_amounts db_ledger (acc_id a) ''deposit'' = map (\<lambda>n. Fin (n * 2 ^ 1074)) [50] \<and>
      (\<forall>n \<in> set [50::int]. 0 \<le> n) \<and> sum_list [50::int] < 2 ^ 53"
    unfolding i using db_ledger_facts(3) by simp
  have e: "acc_balance a = Fin (sum_list [50] * 2 ^ 1074) \<and>
      f64_units (acc_balance a) = ledger_balance_exact db_ledger (acc_id a)"
    using th m h by blast
  then have b: "acc_balance a = Fin (50 * 2 ^ 1074)" by simp
  have x: "ledger_balance_exact db_ledger 1 = Some (50 * 2 ^ 1074)"
    using e unfolding i b by simp
  have "ledger_balance_rounded db_ledger (acc_id a) = Some (acc_balance a)"
    using c m unfolding ledger_consistent_rounded_def by blast
  then have r: "ledger_balance_rounded db_ledger 1 = Some (Fin (50 * 2 ^ 1074))"
    unfolding i b .
  have n: "acc_balance account_new = Fin 0 \<and>
      filter (\<lambda>t. tx_accountId t = acc_id account_new) (transactions db_created) = []"
    using ledger_consistency_rounded [OF reachable_empty] createAccount_empty_db by blast
  show ?thesis
    using reachable_empty reachable_db_ledger c m b x r n createAccount_empty_db
      db_ledger_facts(3)
    unfolding a_def by simp
qed

text \<open>
  Claim C7 as stated fails: the balance need not be the sum of the stored amounts. After
  deposits of 0.10, 0.20 and 0.30 on a new account the balance is 0.6000000000000001,
  above the exact sum of the three stored amounts; and the same three amounts added in
  the opposite order give another value, so that no sum independent of the order is kept.
\<close>

theorem ledger_not_exact_sum:
  "reachable db_drift \<and>
   accounts db_drift = [account_new\<lparr>acc_balance := Fin (5404319552844596 * 2 ^ 1021)\<rparr>] \<and>
   completed_amounts db_drift 1 ''deposit'' = [f64_lit 10 100, f64_lit 20 100, f64_lit 30 100] \<and>
   completed_amounts db_drift 1 ''withdrawal'' = [] \<and>
   ledger_balance_exact db_drift 1 = Some (43234556422756762 * 2 ^ 1018) \<and>
   (43234556422756762 * 2 ^ 1018 :: int) < 5404319552844596 * 2 ^ 1021 \<and>
   \<not> ledger_consistent_exact db_drift \<and>
   ledger_consistent_rounded db_drift \<and>
   f64_sum [f64_lit 10 100, f64_lit 20 100, f64_lit 30 100] =
     Some (Fin (5404319552844596 * 2 ^ 1021)) \<and>
   f64_sum [f64_lit 30 100, f64_lit 20 100, f64_lit 10 100] =
     Some (Fin (5404319552844595 * 2 ^ 1021))"
proof -
  have x: "ledger_balance_exact db_drift 1 = Some (43234556422756762 * 2 ^ 1018)"
    unfolding ledger_balance_exact_def db_drift_facts exact_sum_drift by simp
  have lt: "(43234556422756762 * 2 ^ 1018 :: int) < 5404319552844596 * 2 ^ 1021" by simp
  have "f64_units (acc_balance (account_new\<lparr>acc_balance := Fin (5404319552844596 * 2 ^ 1021)\<rparr>)) \<noteq>
      ledger_balance_exact db_drift
        (acc_id (account_new\<lparr>acc_balance := Fin (5404319552844596 * 2 ^ 1021)\<rparr>))"
    using x lt by (simp add: account_new_def)
  then have n: "\<not> ledger_consistent_exact db_drift"
    unfolding ledger_consistent_exact_def db_drift_facts by simp
  have c: "ledger_consistent_rounded db_drift"
    using reachable_db_drift reachable_ledger_invariant ledger_invariant_consistent by blast
  show ?thesis
    using reachable_db_drift db_drift_facts x lt n c f64_sum_drift f64_sum_drift_rev
    by blast
qed

section \<open>The arithmetic of the balance update\<close>

lemma select_after_update:
  assumes pk: "distinct (map acc_id (accounts d))"
    and a: "a \<in> set (accounts d)" "acc_userId a = u"
  shows "select_account
           (d\<lparr>transactions := ts, transactions_seq := n,
              accounts := map (\<lambda>c. if c = a then a\<lparr>acc_balance := nb\<rparr> else c) (accounts d)\<rparr>)
           (acc_id a) u = Some (a\<lparr>acc_balance := nb\<rparr>)"
proof -
  define a' where "a' = a\<lparr>acc_balance := nb\<rparr>"
  define d' where "d' = d\<lparr>transactions := ts, transactions_seq := n,
              accounts := map (\<lambda>c. if c = a then a' else c) (accounts d)\<rparr>"
  have i: "acc_id a' = acc_id a" and o: "acc_userId a' = u" using a(2) by (simp_all add: a'_def)
  have "map acc_id (accounts d') = map acc_id (accounts d)"
    unfolding d'_def using map_acc_id_update [OF i] by simp
  then have pk': "distinct (map acc_id (accounts d'))" using pk by simp
  have m: "a' \<in> set (accounts d')"
    unfolding d'_def using updated_account_mem [OF a(1)] by simp
  show ?thesis
    using select_account_primary_key [OF pk' m o] unfolding d'_def a'_def i [unfolded a'_def]
    by simp
qed

text \<open>
  Claim C9, as the code has it. \<open>fundAccount\<close> increases the stored balance by one
  binary64 addition of the amount: the new balance is the exact sum rounded to the
  nearest binary64 value, ties to even. It is the exact sum whenever that sum is a
  binary64 value, and so for whole-unit balances and amounts whose sum is below \<open>2^53\<close>.
\<close>

theorem fundAccount_binary64_addition:
  assumes pk: "distinct (map acc_id (accounts d))"
    and a: "a \<in> set (accounts d)" "acc_userId a = u" "acc_status a = Some ''active''"
    and bal: "acc_balance a = Fin b"
  shows "(\<exists>tx d'.
            fundAccount e d u (acc_id a) (Fin x) fs =
              (Inr \<lparr>res_transaction = tx, res_newBalance = round_f64 (b + x) 1\<rparr>, d') \<and>
            select_account d' (acc_id a) u = Some (a\<lparr>acc_balance := round_f64 (b + x) 1\<rparr>)) \<and>
         is_f64 (round_f64 (b + x) 1) \<and>
         (\<forall>m j. b + x = m * 2 ^ j \<and> \<bar>m\<bar> < 2 ^ 53 \<and> \<bar>b + x\<bar> < 2 ^ 2098 \<longrightarrow>
            round_f64 (b + x) 1 = Fin (b + x)) \<and>
         (\<forall>m n. b = m * 2 ^ 1074 \<and> x = n * 2 ^ 1074 \<and> \<bar>m + n\<bar> < 2 ^ 53 \<longrightarrow>
            round_f64 (b + x) 1 = Fin ((m + n) * 2 ^ 1074))"
proof (intro conjI allI impI)
  have nb: "f64_add (acc_balance a) (Fin x) = Some (round_f64 (b + x) 1)" by (simp add: bal)
  obtain tx where
    "fundAccount e d u (acc_id a) (Fin x) fs =
       (Inr \<lparr>res_transaction = tx, res_newBalance = round_f64 (b + x) 1\<rparr>,
        d\<lparr>transactions := transactions d @ [tx], transactions_seq := tx_id tx,
          accounts := map (\<lambda>c. if c = a then a\<lparr>acc_balance := round_f64 (b + x) 1\<rparr> else c)
                        (accounts d)\<rparr>)"
    using fundAccount_success [OF pk a nb, of e fs] by blast
  then show "\<exists>tx d'.
            fundAccount e d u (acc_id a) (Fin x) fs =
              (Inr \<lparr>res_transaction = tx, res_newBalance = round_f64 (b + x) 1\<rparr>, d') \<and>
            select_account d' (acc_id a) u = Some (a\<lparr>acc_balance := round_f64 (b + x) 1\<rparr>)"
    using select_after_update [OF pk a(1,2)] by blast
  show "is_f64 (round_f64 (b + x) 1)" by (rule round_f64_is_f64)
next
  fix m :: int and j :: nat
  assume h: "b + x = m * 2 ^ j \<and> \<bar>m\<bar> < 2 ^ 53 \<and> \<bar>b + x\<bar> < 2 ^ 2098"
  show "round_f64 (b + x) 1 = Fin (b + x)"
  proof (rule round_f64_exact [where m = m and j = j])
    show "b + x = m * 2 ^ j" using h by blast
    show "\<bar>m\<bar> < 2 ^ 53" using h by blast
    show "\<bar>b + x\<bar> < 2 ^ 2098" using h by blast
  qed
next
  fix m n :: int
  assume h: "b = m * 2 ^ 1074 \<and> x = n * 2 ^ 1074 \<and> \<bar>m + n\<bar> < 2 ^ 53"
  then have "b + x = m * 2 ^ 1074 + n * 2 ^ 1074" by (simp only:)
  then have e: "b + x = (m + n) * 2 ^ 1074" by (simp only: distrib_right)
  have "\<bar>m + n\<bar> < 2 ^ 53" using h by blast
  then have "round_f64 ((m + n) * 2 ^ 1074) 1 = Fin ((m + n) * 2 ^ 1074)"
    by (rule f64_lit_int [unfolded f64_lit_def])
  then show "round_f64 (b + x) 1 = Fin ((m + n) * 2 ^ 1074)" by (simp only: e)
qed

theorem fundAccount_binary64_addition_witness:
  "distinct (map acc_id (accounts db_test)) \<and> account_test \<in> set (accounts db_test) \<and>
   acc_userId account_test = 1 \<and> acc_status account_test = Some ''active'' \<and>
   acc_balance account_test = Fin (100 * 2 ^ 1074) \<and>
   (\<exists>tx d'.
      fundAccount env_test db_test 1 1 (Fin (50 * 2 ^ 1074)) fs_bank =
        (Inr \<lparr>res_transaction = tx, res_newBalance = Fin (150 * 2 ^ 1074)\<rparr>, d') \<and>
      select_account d' 1 1 = Some (account_test\<lparr>acc_balance := Fin (150 * 2 ^ 1074)\<rparr>))"
proof -
  have h1: "distinct (map acc_id (accounts db_test))" by (simp add: db_test_def)
  have h2: "account_test \<in> set (accounts db_test)" by (simp add: db_test_def)
  have h3: "acc_userId account_test = 1" by (simp add: account_test_def)
  have h4: "acc_status account_test = Some ''active''" by (simp add: account_test_def)
  have "acc_balance account_test = f64_lit 100 1" by (simp add: account_test_def)
  then have h5: "acc_balance account_test = Fin (100 * 2 ^ 1074)" by (simp add: f64_lit_int)
  have i: "acc_id account_test = 1" by (simp add: account_test_def)
  note th = fundAccount_binary64_addition [OF h1 h2 h3 h4 h5, of env_test "50 * 2 ^ 1074" fs_bank]
  have "(100::int) * 2 ^ 1074 = 100 * 2 ^ 1074 \<and> (50::int) * 2 ^ 1074 = 50 * 2 ^ 1074 \<and>
      \<bar>(100::int) + 50\<bar> < 2 ^ 53" by simp
  then have "round_f64 (100 * 2 ^ 1074 + 50 * 2 ^ 1074) 1 = Fin ((100 + 50) * 2 ^ 1074)"
    using th by blast
  then have r: "round_f64 (100 * 2 ^ 1074 + 50 * 2 ^ 1074) 1 = Fin (150 * 2 ^ 1074)" by simp
  show ?thesis
    using th h1 h2 h3 h4 h5 unfolding r i by blast
qed

text \<open>
  Claim C9 as stated fails: the balance is not kept in minor units. An account of
  balance 0 funded with 0.10 and then 0.20 holds 0.30000000000000004, which is neither
  the fraction 30/100 nor the binary64 value nearest to it.
\<close>

theorem fundAccount_rounding_drift:
  "map acc_balance (accounts
      (snd (fundAccount env_test
              (snd (fundAccount env_test db_created 1 1 (f64_lit 10 100) fs_bank))
              1 1 (f64_lit 20 100) fs_bank))) = [Fin (5404319552844596 * 2 ^ 1020)] \<and>
   f64_lit 30 100 = Fin (5404319552844595 * 2 ^ 1020) \<and>
   \<not> f64_exact_ratio (Fin (5404319552844596 * 2 ^ 1020)) 30 100"
proof -
  have "map acc_balance (accounts
      (snd (fundAccount env_test
              (snd (fundAccount env_test db_created 1 1 (f64_lit 10 100) fs_bank))
              1 1 (f64_lit 20 100) fs_bank))) = [Fin (5404319552844596 * 2 ^ 1020)]"
    by (simp add: fundAccount_def fund_transaction_def insert_transaction_def select_account_def
        db_created_def account_new_def f64_add_zero_010 f64_add_010_020 Let_def)
  moreover have "\<not> f64_exact_ratio (Fin (5404319552844596 * 2 ^ 1020)) 30 100" by simp
  ultimately show ?thesis using f64_lit_030 by blast
qed

section \<open>Concurrent funding of one account\<close>

text \<open>The handler is its read step followed by its write step; and one call that is
  given its two steps is a call of \<open>fundAccount\<close>.\<close>

lemma fundAccount_two_steps:
  "fundAccount e d u accountId x fs = fund_write e d (select_account d accountId u) accountId x fs"
  by (simp add: fundAccount_def fund_write_def)

lemma run_snoc: "run calls (p @ [i]) s = step calls i (run calls p s)"
  by (simp add: run_def)

lemma fundAccount_run:
  "run [\<lparr>c_env = e, c_userId = u, c_accountId = accountId, c_amount = x, c_fundingSource = fs\<rparr>]
       [0, 0] (d, all_pending) =
     (snd (fundAccount e d u accountId x fs),
      all_pending(0 := Returned (fst (fundAccount e d u accountId x fs))))"
  by (simp add: run_def step_def all_pending_def fundAccount_two_steps split: prod.split)

lemma write_order_snoc:
  "write_order n (p @ [i]) =
     (if i < n \<and> count_list p i = 1 then write_order n p @ [i] else write_order n p)"
  by (simp add: write_order_def count_list_rev)

lemma write_order_set:
  "set (write_order n p) = {i. i < n \<and> 2 \<le> count_list p i} \<and> distinct (write_order n p)"
proof (induction p rule: rev_induct)
  case Nil
  then show ?case by (simp add: write_order_def)
next
  case (snoc i p)
  have c: "count_list (p @ [i]) j = (if i = j then count_list p j + 1 else count_list p j)" for j
    by simp
  show ?case
  proof (cases "i < n \<and> count_list p i = 1")
    case True
    then have w: "write_order n (p @ [i]) = write_order n p @ [i]" by (simp add: write_order_snoc)
    have "i \<notin> set (write_order n p)" using snoc True by simp
    moreover have "{j. j < n \<and> 2 \<le> count_list (p @ [i]) j} =
        insert i {j. j < n \<and> 2 \<le> count_list p j}"
      using True unfolding c by (auto split: if_splits)
    ultimately show ?thesis unfolding w using snoc by simp
  next
    case False
    then have w: "write_order n (p @ [i]) = write_order n p" by (simp add: write_order_snoc)
    have "{j. j < n \<and> 2 \<le> count_list (p @ [i]) j} = {j. j < n \<and> 2 \<le> count_list p j}"
      using False unfolding c by (auto split: if_splits)
    then show ?thesis unfolding w using snoc by simp
  qed
qed

lemma write_order_complete:
  assumes "\<forall>i < n. 2 \<le> count_list p i"
  shows "mset (write_order n p) = mset [0..<n]"
proof -
  have "set (write_order n p) = set [0..<n]" using assms write_order_set [of n p] by auto
  then show ?thesis using write_order_set [of n p]
    by (metis distinct_upt set_eq_iff_mset_eq_distinct)
qed


lemma select_account_accounts:
  "accounts d1 = accounts d2 \<Longrightarrow> select_account d1 i u = select_account d2 i u"
  by (simp add: select_account_def)

lemma updated_accounts:
  assumes pk: "distinct (map acc_id (accounts d))" and a: "a \<in> set (accounts d)"
    and ac: "accounts dk = map (\<lambda>c. if c = a then a\<lparr>acc_balance := bal\<rparr> else c) (accounts d)"
  shows "distinct (map acc_id (accounts dk))"
    and "a\<lparr>acc_balance := bal\<rparr> \<in> set (accounts dk)"
    and "map (\<lambda>c. if c = a\<lparr>acc_balance := bal\<rparr> then a\<lparr>acc_balance := nb\<rparr> else c) (accounts dk) =
         map (\<lambda>c. if c = a then a\<lparr>acc_balance := nb\<rparr> else c) (accounts d)"
proof -
  define a' where "a' = a\<lparr>acc_balance := bal\<rparr>"
  have i: "acc_id a' = acc_id a" by (simp add: a'_def)
  have "map acc_id (accounts dk) = map acc_id (accounts d)"
    unfolding ac a'_def [symmetric] using i by (rule map_acc_id_update)
  then show "distinct (map acc_id (accounts dk))" using pk by simp
  show "a\<lparr>acc_balance := bal\<rparr> \<in> set (accounts dk)"
    unfolding ac using a by (rule updated_account_mem)
  have "(if (if c = a then a' else c) = a' then a\<lparr>acc_balance := nb\<rparr> else (if c = a then a' else c)) =
        (if c = a then a\<lparr>acc_balance := nb\<rparr> else c)" if c: "c \<in> set (accounts d)" for c
  proof (cases "c = a")
    case True
    then show ?thesis by simp
  next
    case False
    have "c \<noteq> a'"
    proof
      assume "c = a'"
      then have "acc_id c = acc_id a" using i by simp
      then show False using primary_key_unique [OF pk a c] False by simp
    qed
    then show ?thesis using False by simp
  qed
  then show "map (\<lambda>c. if c = a\<lparr>acc_balance := bal\<rparr> then a\<lparr>acc_balance := nb\<rparr> else c) (accounts dk) =
         map (\<lambda>c. if c = a then a\<lparr>acc_balance := nb\<rparr> else c) (accounts d)"
    unfolding ac a'_def [symmetric] by (simp add: comp_def)
qed

lemma fund_write_success:
  assumes pk: "distinct (map acc_id (accounts d))"
    and a: "a \<in> set (accounts d)" "acc_status a = Some ''active''"
    and s: "acc_status sel = Some ''active''"
    and nb: "f64_add (acc_balance a) x = Some nb"
  shows "\<exists>tx.
      fund_write e d (Some sel) (acc_id a) x fs =
        (Inr \<lparr>res_transaction = tx, res_newBalance = nb\<rparr>,
         d\<lparr>transactions := transactions d @ [tx], transactions_seq := tx_id tx,
           accounts := map (\<lambda>c. if c = a then a\<lparr>acc_balance := nb\<rparr> else c) (accounts d)\<rparr>) \<and>
      tx_accountId tx = acc_id a \<and> tx_type tx = ''deposit'' \<and> tx_amount tx = x \<and>
      tx_status tx = ''completed''"
proof -
  have "select_account d (acc_id a) (acc_userId a) = Some a"
    using pk a(1) refl by (rule select_account_primary_key)
  then have "fundAccount e d (acc_userId a) (acc_id a) x fs = fund_transaction e d (acc_id a) x fs"
    using a(2) by (simp add: fundAccount_def)
  moreover have "fund_write e d (Some sel) (acc_id a) x fs = fund_transaction e d (acc_id a) x fs"
    using s by (simp add: fund_write_def)
  ultimately show ?thesis
    using fundAccount_success [OF pk a(1) refl a(2) nb, of e fs] by auto
qed

lemma funding_invariant_step:
  assumes pk: "distinct (map acc_id (accounts d))"
    and a: "a \<in> set (accounts d)" "acc_status a = Some ''active''"
    and calls: "\<forall>c \<in> set calls. c_accountId c = acc_id a \<and> c_userId c = acc_userId a \<and>
                  f64_le (f64_lit 1 100) (c_amount c)"
    and inv: "funding_invariant d a calls p s"
  shows "funding_invariant d a calls (p @ [i]) (step calls i s)"
proof -
  obtain dk st where s: "s = (dk, st)" by (cases s)
  obtain txs bal where
    t: "transactions dk = transactions d @ txs"
    and am: "map tx_amount txs = map (\<lambda>i. c_amount (calls ! i)) (write_order (length calls) p)"
    and co: "\<forall>t \<in> set txs.
           tx_status t = ''completed'' \<and> tx_type t = ''deposit'' \<and> tx_accountId t = acc_id a"
    and su: "f64_sum_from (acc_balance a) (map tx_amount txs) = Some bal"
    and nn: "f64_le (Fin 0) bal"
    and ac: "accounts dk = map (\<lambda>c. if c = a then a\<lparr>acc_balance := bal\<rparr> else c) (accounts d)"
    and st: "\<forall>j < length calls.
           (count_list p j = 0 \<longrightarrow> st j = Pending) \<and>
           (count_list p j = 1 \<longrightarrow>
              (\<exists>sel. st j = Selected (Some sel) \<and> acc_status sel = Some ''active'')) \<and>
           (2 \<le> count_list p j \<longrightarrow>
              (\<exists>tx nb. st j = Returned (Inr \<lparr>res_transaction = tx, res_newBalance = nb\<rparr>) \<and>
                 tx \<in> set txs \<and> tx_amount tx = c_amount (calls ! j)))"
    using inv unfolding funding_invariant_def s fst_conv snd_conv by blast
  have c: "count_list (p @ [i]) j = (if i = j then count_list p j + 1 else count_list p j)" for j
    by simp
  have keep: "funding_invariant d a calls (p @ [i]) (dk, st')"
    if w: "write_order (length calls) (p @ [i]) = write_order (length calls) p"
      and st': "\<forall>j < length calls.
           (count_list (p @ [i]) j = 0 \<longrightarrow> st' j = Pending) \<and>
           (count_list (p @ [i]) j = 1 \<longrightarrow>
              (\<exists>sel. st' j = Selected (Some sel) \<and> acc_status sel = Some ''active'')) \<and>
           (2 \<le> count_list (p @ [i]) j \<longrightarrow>
              (\<exists>tx nb. st' j = Returned (Inr \<lparr>res_transaction = tx, res_newBalance = nb\<rparr>) \<and>
                 tx \<in> set txs \<and> tx_amount tx = c_amount (calls ! j)))"
    for st'
    unfolding funding_invariant_def fst_conv snd_conv w
    using t am co su nn ac st' by blast
  show ?thesis
  proof (cases "i < length calls")
    case False
    then have e: "step calls i s = (dk, st)" by (simp add: step_def s)
    have w: "write_order (length calls) (p @ [i]) = write_order (length calls) p"
      using False by (simp add: write_order_snoc)
    have "\<forall>j < length calls. count_list (p @ [i]) j = count_list p j"
      using False unfolding c by auto
    then show ?thesis unfolding e using w st by (intro keep) simp_all
  next
    case True
    then have m: "calls ! i \<in> set calls" by simp
    have ci: "c_accountId (calls ! i) = acc_id a" "c_userId (calls ! i) = acc_userId a"
      and cx: "f64_le (f64_lit 1 100) (c_amount (calls ! i))"
      using calls m by blast+
    consider (pending) "count_list p i = 0" | (selected) "count_list p i = 1"
      | (returned) "2 \<le> count_list p i" by linarith
    then show ?thesis
    proof cases
      case pending
      then have p: "st i = Pending" using st True by blast
      have "select_account dk (acc_id a) (acc_userId a) = Some (a\<lparr>acc_balance := bal\<rparr>)"
        using select_after_update [OF pk a(1) refl, where ts = "transactions dk" and n = "transactions_seq dk"
            and nb = bal]
          select_account_accounts [of dk "d\<lparr>transactions := transactions dk,
              transactions_seq := transactions_seq dk,
              accounts := map (\<lambda>c. if c = a then a\<lparr>acc_balance := bal\<rparr> else c) (accounts d)\<rparr>"
            "acc_id a" "acc_userId a"] ac
        by simp
      then have e: "step calls i s = (dk, st(i := Selected (Some (a\<lparr>acc_balance := bal\<rparr>))))"
        using True p by (simp add: step_def s ci)
      have w: "write_order (length calls) (p @ [i]) = write_order (length calls) p"
        using pending by (simp add: write_order_snoc)
      show ?thesis unfolding e
      proof (rule keep [OF w], intro allI impI)
        fix j assume j: "j < length calls"
        show "(count_list (p @ [i]) j = 0 \<longrightarrow>
                (st(i := Selected (Some (a\<lparr>acc_balance := bal\<rparr>)))) j = Pending) \<and>
           (count_list (p @ [i]) j = 1 \<longrightarrow>
              (\<exists>sel. (st(i := Selected (Some (a\<lparr>acc_balance := bal\<rparr>)))) j = Selected (Some sel) \<and>
                 acc_status sel = Some ''active'')) \<and>
           (2 \<le> count_list (p @ [i]) j \<longrightarrow>
              (\<exists>tx nb. (st(i := Selected (Some (a\<lparr>acc_balance := bal\<rparr>)))) j =
                   Returned (Inr \<lparr>res_transaction = tx, res_newBalance = nb\<rparr>) \<and>
                 tx \<in> set txs \<and> tx_amount tx = c_amount (calls ! j)))"
        proof (cases "j = i")
          case True
          then show ?thesis using pending a(2) unfolding c by simp
        next
          case False
          then show ?thesis using st j unfolding c by simp
        qed
      qed
    next
      case returned
      then obtain r where p: "st i = Returned r" using st True by blast
      have e: "step calls i s = (dk, st)" using True p by (simp add: step_def s)
      have w: "write_order (length calls) (p @ [i]) = write_order (length calls) p"
        using returned by (simp add: write_order_snoc)
      show ?thesis unfolding e
      proof (rule keep [OF w], intro allI impI)
        fix j assume j: "j < length calls"
        show "(count_list (p @ [i]) j = 0 \<longrightarrow> st j = Pending) \<and>
           (count_list (p @ [i]) j = 1 \<longrightarrow>
              (\<exists>sel. st j = Selected (Some sel) \<and> acc_status sel = Some ''active'')) \<and>
           (2 \<le> count_list (p @ [i]) j \<longrightarrow>
              (\<exists>tx nb. st j = Returned (Inr \<lparr>res_transaction = tx, res_newBalance = nb\<rparr>) \<and>
                 tx \<in> set txs \<and> tx_amount tx = c_amount (calls ! j)))"
        proof (cases "j = i")
          case True
          have "2 \<le> count_list p j" using returned True by simp
          then have "\<exists>tx nb. st j = Returned (Inr \<lparr>res_transaction = tx, res_newBalance = nb\<rparr>) \<and>
                 tx \<in> set txs \<and> tx_amount tx = c_amount (calls ! j)"
            using st j by blast
          then show ?thesis using returned True unfolding c by simp
        next
          case False
          then show ?thesis using st j unfolding c by simp
        qed
      qed
    next
      case selected
      then obtain sel where p: "st i = Selected (Some sel)" "acc_status sel = Some ''active''"
        using st True by blast
      define a' where "a' = a\<lparr>acc_balance := bal\<rparr>"
      have u: "distinct (map acc_id (accounts dk))" "a' \<in> set (accounts dk)"
        unfolding a'_def by (rule updated_accounts [OF pk a(1) ac])+
      have aa: "a'\<lparr>acc_balance := nb\<rparr> = a\<lparr>acc_balance := nb\<rparr>" for nb
        by (simp add: a'_def)
      have act: "acc_status a' = Some ''active''" using a(2) by (simp add: a'_def)
      have i': "acc_id a' = acc_id a" by (simp add: a'_def)
      have b': "acc_balance a' = bal" by (simp add: a'_def)
      obtain nb where nb: "f64_add bal (c_amount (calls ! i)) = Some nb" "f64_le (Fin 0) nb"
        using f64_add_nonneg [OF nn validated_amount_nonneg [OF cx]] by blast
      obtain tx where
        fw: "fund_write (c_env (calls ! i)) dk (Some sel) (acc_id a) (c_amount (calls ! i))
               (c_fundingSource (calls ! i)) =
          (Inr \<lparr>res_transaction = tx, res_newBalance = nb\<rparr>,
           dk\<lparr>transactions := transactions dk @ [tx], transactions_seq := tx_id tx,
              accounts := map (\<lambda>c. if c = a' then a'\<lparr>acc_balance := nb\<rparr> else c) (accounts dk)\<rparr>)"
        and tx: "tx_accountId tx = acc_id a" "tx_type tx = ''deposit''"
          "tx_amount tx = c_amount (calls ! i)" "tx_status tx = ''completed''"
        using fund_write_success [OF u(1) u(2) act p(2), of "c_amount (calls ! i)" nb
            "c_env (calls ! i)" "c_fundingSource (calls ! i)"] nb(1)
        unfolding i' b' by blast
      have upd: "map (\<lambda>c. if c = a' then a'\<lparr>acc_balance := nb\<rparr> else c) (accounts dk) =
          map (\<lambda>c. if c = a then a\<lparr>acc_balance := nb\<rparr> else c) (accounts d)"
        unfolding aa unfolding a'_def by (rule updated_accounts(3) [OF pk a(1) ac])
      define dk' where "dk' = dk\<lparr>transactions := transactions dk @ [tx], transactions_seq := tx_id tx,
              accounts := map (\<lambda>c. if c = a then a\<lparr>acc_balance := nb\<rparr> else c) (accounts d)\<rparr>"
      define st' where "st' = st(i := Returned (Inr \<lparr>res_transaction = tx, res_newBalance = nb\<rparr>))"
      have e: "step calls i s = (dk', st')"
        using True p(1) fw unfolding upd by (simp add: step_def s ci dk'_def st'_def)
      have w: "write_order (length calls) (p @ [i]) = write_order (length calls) p @ [i]"
        using selected True by (simp add: write_order_snoc)
      have q1: "transactions dk' = transactions d @ (txs @ [tx])" by (simp add: dk'_def t)
      have q2: "map tx_amount (txs @ [tx]) =
          map (\<lambda>i. c_amount (calls ! i)) (write_order (length calls) (p @ [i]))"
        unfolding w using am tx(3) by simp
      have q3: "\<forall>t \<in> set (txs @ [tx]).
           tx_status t = ''completed'' \<and> tx_type t = ''deposit'' \<and> tx_accountId t = acc_id a"
        using co tx by simp
      have q4: "f64_sum_from (acc_balance a) (map tx_amount (txs @ [tx])) = Some nb"
        using su nb(1) tx(3) by (simp add: f64_sum_from_snoc)
      have q5: "accounts dk' = map (\<lambda>c. if c = a then a\<lparr>acc_balance := nb\<rparr> else c) (accounts d)"
        by (simp add: dk'_def)
      have q6: "(count_list (p @ [i]) j = 0 \<longrightarrow> st' j = Pending) \<and>
           (count_list (p @ [i]) j = 1 \<longrightarrow>
              (\<exists>sel. st' j = Selected (Some sel) \<and> acc_status sel = Some ''active'')) \<and>
           (2 \<le> count_list (p @ [i]) j \<longrightarrow>
              (\<exists>tx' nb'. st' j = Returned (Inr \<lparr>res_transaction = tx', res_newBalance = nb'\<rparr>) \<and>
                 tx' \<in> set (txs @ [tx]) \<and> tx_amount tx' = c_amount (calls ! j)))"
        if j: "j < length calls" for j
      proof (cases "j = i")
        case True
        then show ?thesis using selected tx(3) unfolding c st'_def by simp
      next
        case False
        have "\<exists>tx' nb'. st j = Returned (Inr \<lparr>res_transaction = tx', res_newBalance = nb'\<rparr>) \<and>
                 tx' \<in> set (txs @ [tx]) \<and> tx_amount tx' = c_amount (calls ! j)"
          if "2 \<le> count_list p j"
          using st j that by fastforce
        then show ?thesis using False st j unfolding c st'_def by simp
      qed
      show ?thesis
        unfolding e funding_invariant_def fst_conv snd_conv
        using q1 q2 q3 q4 nb(2) q5 q6 by blast
    qed
  qed
qed

lemma funding_invariant_initial:
  assumes "f64_le (Fin 0) (acc_balance a)"
  shows "funding_invariant d a calls [] (d, all_pending)"
proof -
  have "a\<lparr>acc_balance := acc_balance a\<rparr> = a" by simp
  then have "accounts d = map (\<lambda>c. if c = a then a\<lparr>acc_balance := acc_balance a\<rparr> else c) (accounts d)"
    by (simp add: map_idI)
  then show ?thesis
    unfolding funding_invariant_def fst_conv snd_conv
    using assms
    by (intro exI [of _ "[]"] exI [of _ "acc_balance a"])
       (simp add: write_order_def f64_sum_from_Nil all_pending_def)
qed

lemma funding_invariant_run:
  assumes pk: "distinct (map acc_id (accounts d))"
    and a: "a \<in> set (accounts d)" "acc_status a = Some ''active''"
    and b: "f64_le (Fin 0) (acc_balance a)"
    and calls: "\<forall>c \<in> set calls. c_accountId c = acc_id a \<and> c_userId c = acc_userId a \<and>
                  f64_le (f64_lit 1 100) (c_amount c)"
  shows "funding_invariant d a calls p (run calls p (d, all_pending))"
proof (induction p rule: rev_induct)
  case Nil
  show ?case using funding_invariant_initial [OF b] by (simp add: run_def)
next
  case (snoc i p)
  show ?case unfolding run_snoc using pk a calls snoc by (rule funding_invariant_step)
qed


lemma written_amounts:
  assumes w: "mset ws = mset [0..<length calls]"
  shows "mset (map (\<lambda>i. c_amount (calls ! i)) ws) = mset (map c_amount calls)"
proof -
  have "mset (map (\<lambda>i. c_amount (calls ! i)) ws) =
      image_mset (\<lambda>i. c_amount (calls ! i)) (mset ws)" by simp
  also have "\<dots> = mset (map (\<lambda>i. c_amount (calls ! i)) [0..<length calls])"
    unfolding w by simp
  also have "map (\<lambda>i. c_amount (calls ! i)) [0..<length calls] =
      map c_amount (map (\<lambda>i. calls ! i) [0..<length calls])"
    by (simp only: map_map comp_def)
  also have "\<dots> = map c_amount calls" by (simp only: map_nth)
  finally show ?thesis .
qed

lemma whole_amounts_sum:
  assumes m: "mset xs = mset (map (\<lambda>n. Fin (n * 2 ^ 1074)) ns)"
    and v: "\<forall>x \<in> set xs. f64_le (Fin 0) x"
    and b: "f64_le (Fin 0) (Fin (m * 2 ^ 1074))" "m + sum_list ns < 2 ^ 53"
  shows "f64_sum_from (Fin (m * 2 ^ 1074)) xs = Some (Fin ((m + sum_list ns) * 2 ^ 1074))"
proof -
  have "\<forall>x \<in> set xs. \<exists>n. x = Fin (n * 2 ^ 1074) \<and> 0 \<le> n"
  proof
    fix x assume x: "x \<in> set xs"
    then have "x \<in> set (map (\<lambda>n. Fin (n * 2 ^ 1074)) ns)" using m by (metis mset_eq_setD)
    then obtain n where "x = Fin (n * 2 ^ 1074)" by auto
    moreover have "f64_le (Fin 0) x" using v x by blast
    ultimately show "\<exists>n. x = Fin (n * 2 ^ 1074) \<and> 0 \<le> n" using whole_units_nonneg by blast
  qed
  then have "\<exists>ns'. xs = map (\<lambda>n. Fin (n * 2 ^ 1074)) ns' \<and> (\<forall>n \<in> set ns'. 0 \<le> n)"
  proof (induction xs)
    case Nil
    then show ?case by simp
  next
    case (Cons x xs)
    then obtain ns' where "xs = map (\<lambda>n. Fin (n * 2 ^ 1074)) ns'" "\<forall>n \<in> set ns'. 0 \<le> n"
      by auto
    moreover obtain n where "x = Fin (n * 2 ^ 1074)" "0 \<le> n" using Cons.prems by auto
    ultimately have "x # xs = map (\<lambda>n. Fin (n * 2 ^ 1074)) (n # ns') \<and>
        (\<forall>n \<in> set (n # ns'). 0 \<le> n)"
      by simp
    then show ?case by (rule exI [of _ "n # ns'"])
  qed
  then obtain ns' where ns': "xs = map (\<lambda>n. Fin (n * 2 ^ 1074)) ns'" "\<forall>n \<in> set ns'. 0 \<le> n"
    by blast
  define u where "u = (\<lambda>x. case x of Fin k \<Rightarrow> k div 2 ^ 1074 | PosInf \<Rightarrow> (0::int) | NegInf \<Rightarrow> 0)"
  have u: "map u (map (\<lambda>n. Fin (n * 2 ^ 1074)) ks) = ks" for ks
    by (simp add: u_def comp_def)
  have "image_mset u (mset xs) = image_mset u (mset (map (\<lambda>n. Fin (n * 2 ^ 1074)) ns))"
    using m by (simp only:)
  then have "mset (map u xs) = mset (map u (map (\<lambda>n. Fin (n * 2 ^ 1074)) ns))"
    by (simp only: mset_map)
  then have "mset ns' = mset ns" unfolding ns'(1) u .
  then have "sum_list ns' = sum_list ns" by (metis sum_mset_sum_list)
  moreover have "0 \<le> m" using b(1) by (rule whole_units_nonneg)
  ultimately show ?thesis
    unfolding ns'(1) using f64_sum_from_whole [OF ns'(2), of m] b(2) by simp
qed

text \<open>
  Claim C2, as the code has it. Let \<open>N\<close> calls of \<open>fundAccount\<close> with validated amounts
  fund one active account \<open>a\<close> of non-negative balance, each by its owner, and let them
  run concurrently: every call runs its read step and later its write step, the steps of
  the calls interleaved in any order. When all have run, every call has returned its
  transaction; exactly \<open>N\<close> transactions have been appended, all completed deposits on
  \<open>a\<close>, their amounts being the amounts of the calls in the order of the write steps;
  no other account has changed; and no update is lost: the balance of \<open>a\<close> is the
  initial balance with the \<open>N\<close> amounts added one after the other in that order by the
  binary64 addition of the REAL column, whatever balance a call has read. It is the
  initial balance plus the exact sum of the amounts when these are whole numbers of total
  below \<open>2^53\<close>.
\<close>

theorem concurrent_fundAccount:
  assumes pk: "distinct (map acc_id (accounts d))"
    and a: "a \<in> set (accounts d)" "acc_status a = Some ''active''"
    and b: "f64_le (Fin 0) (acc_balance a)"
    and calls: "\<forall>c \<in> set calls. c_accountId c = acc_id a \<and> c_userId c = acc_userId a \<and>
                  f64_le (f64_lit 1 100) (c_amount c)"
    and sched: "\<forall>i < length calls. 2 \<le> count_list schedule i"
    and run: "run calls schedule (d, all_pending) = (d', st')"
  shows "\<exists>txs bal.
      transactions d' = transactions d @ txs \<and> length txs = length calls \<and>
      (\<forall>t \<in> set txs.
         tx_status t = ''completed'' \<and> tx_type t = ''deposit'' \<and> tx_accountId t = acc_id a) \<and>
      map tx_amount txs = map (\<lambda>i. c_amount (calls ! i)) (write_order (length calls) schedule) \<and>
      mset (write_order (length calls) schedule) = mset [0..<length calls] \<and>
      mset (map tx_amount txs) = mset (map c_amount calls) \<and>
      f64_sum_from (acc_balance a) (map tx_amount txs) = Some bal \<and>
      accounts d' = map (\<lambda>c. if c = a then a\<lparr>acc_balance := bal\<rparr> else c) (accounts d) \<and>
      (\<forall>i < length calls.
         \<exists>tx nb. st' i = Returned (Inr \<lparr>res_transaction = tx, res_newBalance = nb\<rparr>) \<and>
           tx \<in> set txs \<and> tx_amount tx = c_amount (calls ! i)) \<and>
      (\<forall>m ns. acc_balance a = Fin (m * 2 ^ 1074) \<and>
         map c_amount calls = map (\<lambda>n. Fin (n * 2 ^ 1074)) ns \<and> m + sum_list ns < 2 ^ 53 \<longrightarrow>
         bal = Fin ((m + sum_list ns) * 2 ^ 1074))"
proof -
  have "funding_invariant d a calls schedule (d', st')"
    using funding_invariant_run [OF pk a b calls, of schedule] unfolding run .
  then obtain txs bal where
    t: "transactions d' = transactions d @ txs"
    and am: "map tx_amount txs =
        map (\<lambda>i. c_amount (calls ! i)) (write_order (length calls) schedule)"
    and co: "\<forall>t \<in> set txs.
           tx_status t = ''completed'' \<and> tx_type t = ''deposit'' \<and> tx_accountId t = acc_id a"
    and su: "f64_sum_from (acc_balance a) (map tx_amount txs) = Some bal"
    and ac: "accounts d' = map (\<lambda>c. if c = a then a\<lparr>acc_balance := bal\<rparr> else c) (accounts d)"
    and st: "\<forall>j < length calls.
           (count_list schedule j = 0 \<longrightarrow> st' j = Pending) \<and>
           (count_list schedule j = 1 \<longrightarrow>
              (\<exists>sel. st' j = Selected (Some sel) \<and> acc_status sel = Some ''active'')) \<and>
           (2 \<le> count_list schedule j \<longrightarrow>
              (\<exists>tx nb. st' j = Returned (Inr \<lparr>res_transaction = tx, res_newBalance = nb\<rparr>) \<and>
                 tx \<in> set txs \<and> tx_amount tx = c_amount (calls ! j)))"
    unfolding funding_invariant_def fst_conv snd_conv by blast
  have w: "mset (write_order (length calls) schedule) = mset [0..<length calls]"
    using sched by (rule write_order_complete)
  have ms: "mset (map tx_amount txs) = mset (map c_amount calls)"
    unfolding am using w by (rule written_amounts)
  have "length (map tx_amount txs) = length (map c_amount calls)"
    using ms by (rule mset_eq_length)
  then have len: "length txs = length calls" by simp
  have ret: "\<forall>i < length calls.
         \<exists>tx nb. st' i = Returned (Inr \<lparr>res_transaction = tx, res_newBalance = nb\<rparr>) \<and>
           tx \<in> set txs \<and> tx_amount tx = c_amount (calls ! i)"
    using st sched by blast
  have ex: "bal = Fin ((m + sum_list ns) * 2 ^ 1074)"
    if h: "acc_balance a = Fin (m * 2 ^ 1074) \<and>
         map c_amount calls = map (\<lambda>n. Fin (n * 2 ^ 1074)) ns \<and> m + sum_list ns < 2 ^ 53"
    for m ns
  proof -
    have m1: "mset (map tx_amount txs) = mset (map (\<lambda>n. Fin (n * 2 ^ 1074)) ns)"
      using ms h by simp
    have "\<forall>x \<in> set (map c_amount calls). f64_le (Fin 0) x"
      using calls validated_amount_nonneg by auto
    then have v: "\<forall>x \<in> set (map tx_amount txs). f64_le (Fin 0) x"
      using ms by (metis mset_eq_setD)
    have b1: "f64_le (Fin 0) (Fin (m * 2 ^ 1074))" using b h by simp
    have b2: "m + sum_list ns < 2 ^ 53" using h by blast
    have "f64_sum_from (Fin (m * 2 ^ 1074)) (map tx_amount txs) =
        Some (Fin ((m + sum_list ns) * 2 ^ 1074))"
      using m1 v b1 b2 by (rule whole_amounts_sum)
    then show ?thesis using su h by simp
  qed
  show ?thesis
    using t len co am w ms su ac ret ex by blast
qed


theorem concurrent_fundAccount_witness:
  "distinct (map acc_id (accounts db_test)) \<and> account_test \<in> set (accounts db_test) \<and>
   acc_status account_test = Some ''active'' \<and>
   acc_balance account_test = Fin (100 * 2 ^ 1074) \<and>
   f64_le (Fin 0) (acc_balance account_test) \<and>
   list_all (\<lambda>c. c_accountId c = acc_id account_test \<and> c_userId c = acc_userId account_test \<and>
                 f64_le (f64_lit 1 100) (c_amount c)) calls_fifty \<and>
   map c_amount calls_fifty = [Fin (50 * 2 ^ 1074), Fin (50 * 2 ^ 1074)] \<and>
   length calls_fifty = 2 \<and>
   count_list [0, 1, 1, 0] (0::nat) = 2 \<and> count_list [0, 1, 1, 0] (1::nat) = 2 \<and>
   accounts (fst (run calls_fifty [0, 1, 1, 0] (db_test, all_pending))) =
     [account_test\<lparr>acc_balance := Fin (200 * 2 ^ 1074)\<rparr>] \<and>
   length (transactions (fst (run calls_fifty [0, 1, 1, 0] (db_test, all_pending)))) = 2 \<and>
   list_all (\<lambda>t. tx_status t = ''completed'')
     (transactions (fst (run calls_fifty [0, 1, 1, 0] (db_test, all_pending))))"
proof -
  define r where "r = run calls_fifty [0, 1, 1, 0] (db_test, all_pending)"
  have h1: "distinct (map acc_id (accounts db_test))" by (simp add: db_test_def)
  have h2: "account_test \<in> set (accounts db_test)" by (simp add: db_test_def)
  have h3: "acc_status account_test = Some ''active''" by (simp add: account_test_def)
  have "acc_balance account_test = f64_lit 100 1" by (simp add: account_test_def)
  then have h4: "acc_balance account_test = Fin (100 * 2 ^ 1074)" by (simp add: f64_lit_int)
  have h5: "f64_le (Fin 0) (acc_balance account_test)" unfolding h4 by simp
  have v: "f64_le (f64_lit 1 100) (Fin (50 * 2 ^ 1074))" by (simp add: f64_lit_001)
  have h6: "\<forall>c \<in> set calls_fifty. c_accountId c = acc_id account_test \<and>
      c_userId c = acc_userId account_test \<and> f64_le (f64_lit 1 100) (c_amount c)"
    using v by (simp add: calls_fifty_def call_test_def account_test_def)
  have l: "length calls_fifty = 2" by (simp add: calls_fifty_def)
  have c: "count_list [0, 1, 1, 0] (0::nat) = 2" "count_list [0, 1, 1, 0] (1::nat) = 2"
    by simp_all
  have h7: "\<forall>i < length calls_fifty. 2 \<le> count_list [0, 1, 1, 0] i"
    unfolding l using c by (auto simp: less_2_cases_iff)
  have h8: "run calls_fifty [0, 1, 1, 0] (db_test, all_pending) = (fst r, snd r)"
    by (simp add: r_def)
  have am: "map c_amount calls_fifty = [Fin (50 * 2 ^ 1074), Fin (50 * 2 ^ 1074)]"
    by (simp add: calls_fifty_def call_test_def)
  obtain txs bal where
    t: "transactions (fst r) = transactions db_test @ txs" "length txs = length calls_fifty"
    and co: "\<forall>t \<in> set txs. tx_status t = ''completed'' \<and> tx_type t = ''deposit'' \<and>
        tx_accountId t = acc_id account_test"
    and ac: "accounts (fst r) =
        map (\<lambda>c. if c = account_test then account_test\<lparr>acc_balance := bal\<rparr> else c)
          (accounts db_test)"
    and ex: "\<forall>m ns. acc_balance account_test = Fin (m * 2 ^ 1074) \<and>
         map c_amount calls_fifty = map (\<lambda>n. Fin (n * 2 ^ 1074)) ns \<and> m + sum_list ns < 2 ^ 53 \<longrightarrow>
         bal = Fin ((m + sum_list ns) * 2 ^ 1074)"
    using concurrent_fundAccount [OF h1 h2 h3 h5 h6 h7 h8] by blast
  have "acc_balance account_test = Fin (100 * 2 ^ 1074) \<and>
         map c_amount calls_fifty = map (\<lambda>n. Fin (n * 2 ^ 1074)) [50, 50] \<and>
         100 + sum_list [50, 50] < (2::int) ^ 53"
    using h4 am by simp
  then have "bal = Fin ((100 + sum_list [50, 50]) * 2 ^ 1074)" using ex by blast
  then have b: "bal = Fin (200 * 2 ^ 1074)" by simp
  have r1: "accounts (fst r) = [account_test\<lparr>acc_balance := Fin (200 * 2 ^ 1074)\<rparr>]"
    unfolding ac b by (simp add: db_test_def)
  have t': "transactions (fst r) = txs" using t(1) by (simp add: db_test_def)
  have r2: "length (transactions (fst r)) = 2" unfolding t' t(2) l ..
  have r3: "list_all (\<lambda>t. tx_status t = ''completed'') (transactions (fst r))"
    unfolding t' list_all_iff using co by blast
  have h6': "list_all (\<lambda>c. c_accountId c = acc_id account_test \<and>
      c_userId c = acc_userId account_test \<and> f64_le (f64_lit 1 100) (c_amount c)) calls_fifty"
    unfolding list_all_iff using h6 .
  show ?thesis
    using h1 h2 h3 h4 h5 h6' am l c r1 r2 r3 unfolding r_def by blast
qed

lemma exact_sum_initial_drift:
  "exact_sum (acc_balance account_new # map c_amount calls_drift) =
     Some (43234556422756762 * 2 ^ 1018)"
  unfolding calls_drift_def call_test_def account_new_def
  by (simp add: f64_lit_010 f64_lit_020 f64_lit_030)

text \<open>
  Claim C2 as stated fails: the final balance is not always the initial balance plus the
  sum of the amounts. Three concurrent calls fund a new account with 0.10, 0.20 and 0.30:
  when their write steps run in the order of the calls the balance is
  0.6000000000000001, above the exact sum; when they run in the opposite order it is the
  binary64 value 0.6, below the exact sum. Three completed transactions are recorded in
  either case.
\<close>

theorem concurrent_fundAccount_drift:
  "accounts db_created = [account_new] \<and> acc_status account_new = Some ''active'' \<and>
   acc_balance account_new = Fin 0 \<and>
   map c_amount calls_drift = [f64_lit 10 100, f64_lit 20 100, f64_lit 30 100] \<and>
   map acc_balance (accounts (fst (run calls_drift [0, 1, 2, 0, 1, 2] (db_created, all_pending)))) =
     [Fin (5404319552844596 * 2 ^ 1021)] \<and>
   map acc_balance (accounts (fst (run calls_drift [0, 1, 2, 2, 1, 0] (db_created, all_pending)))) =
     [Fin (5404319552844595 * 2 ^ 1021)] \<and>
   map tx_status (transactions (fst (run calls_drift [0, 1, 2, 0, 1, 2] (db_created, all_pending)))) =
     [''completed'', ''completed'', ''completed''] \<and>
   exact_sum (acc_balance account_new # map c_amount calls_drift) =
     Some (43234556422756762 * 2 ^ 1018) \<and>
   (5404319552844595 * 2 ^ 1021 :: int) < 43234556422756762 * 2 ^ 1018 \<and>
   (43234556422756762 * 2 ^ 1018 :: int) < 5404319552844596 * 2 ^ 1021"
proof -
  define b2 where "b2 = Fin (5404319552844596 * 2 ^ 1020)"
  define b3 where "b3 = Fin (5404319552844596 * 2 ^ 1021)"
  define c2 where "c2 = Fin (2 ^ 1073)"
  define c3 where "c3 = Fin (5404319552844595 * 2 ^ 1021)"
  have a2: "f64_add (f64_lit 10 100) (f64_lit 20 100) = Some b2"
    unfolding b2_def by (rule f64_add_010_020)
  have a3: "f64_add b2 (f64_lit 30 100) = Some b3"
    unfolding b2_def b3_def by (rule f64_add_030_030)
  have a4: "f64_add (f64_lit 30 100) (f64_lit 20 100) = Some c2"
    unfolding c2_def by (rule f64_add_030_020)
  have a5: "f64_add c2 (f64_lit 10 100) = Some c3"
    unfolding c2_def c3_def by (rule f64_add_050_010)
  have r1: "map acc_balance
      (accounts (fst (run calls_drift [0, 1, 2, 0, 1, 2] (db_created, all_pending)))) = [b3]"
    by (simp add: run_def step_def calls_drift_def call_test_def all_pending_def fund_write_def
        fund_transaction_def insert_transaction_def select_account_def db_created_def
        account_new_def f64_add_zero_010 a2 a3 Let_def)
  have r2: "map acc_balance
      (accounts (fst (run calls_drift [0, 1, 2, 2, 1, 0] (db_created, all_pending)))) = [c3]"
    by (simp add: run_def step_def calls_drift_def call_test_def all_pending_def fund_write_def
        fund_transaction_def insert_transaction_def select_account_def db_created_def
        account_new_def f64_add_zero_030 a4 a5 Let_def)
  have r3: "map tx_status
      (transactions (fst (run calls_drift [0, 1, 2, 0, 1, 2] (db_created, all_pending)))) =
     [''completed'', ''completed'', ''completed'']"
    by (simp add: run_def step_def calls_drift_def call_test_def all_pending_def fund_write_def
        fund_transaction_def insert_transaction_def select_account_def db_created_def
        account_new_def f64_add_zero_010 a2 a3 Let_def)
  have i: "accounts db_created = [account_new] \<and> acc_status account_new = Some ''active'' \<and>
      acc_balance account_new = Fin 0 \<and>
      map c_amount calls_drift = [f64_lit 10 100, f64_lit 20 100, f64_lit 30 100]"
    by (simp add: db_created_def account_new_def calls_drift_def call_test_def)
  have lt: "(5404319552844595 * 2 ^ 1021 :: int) < 43234556422756762 * 2 ^ 1018"
    "(43234556422756762 * 2 ^ 1018 :: int) < 5404319552844596 * 2 ^ 1021"
    by simp_all
  show ?thesis
    using i r1 r2 r3 exact_sum_initial_drift lt unfolding b3_def c3_def by blast
qed

end
